theory Spec2Isabelle
  imports Complex_Main "HOL-Library.Word" "HOL-Library.Log_Nat"
begin

unbundle bit_operations_syntax

section \<open>Bytes, Python exceptions and the struct helpers\<close>

text \<open>
  The program is \<^verbatim>\<open>UART_Tester/tester.py\<close>. A Python \<^verbatim>\<open>bytes\<close> or
  \<^verbatim>\<open>bytearray\<close> object is a list of 8-bit words; a Python \<^verbatim>\<open>int\<close> is
  unbounded and is an \<^typ>\<open>int\<close>. Reading a byte out of a bytes object gives an
  integer between 0 and 255, which is \<^term>\<open>uint\<close> of the word.
\<close>

type_synonym byte = "8 word"

text \<open>
  The exceptions the modelled code can raise and does not catch. A hard transport
  error (\<^verbatim>\<open>serial.SerialException\<close>) is caught by the receiver and is an outcome of a
  read, not a member of this type.
\<close>

datatype error = ValueError | StructError | IndexError | ZeroDivisionError

text \<open>
  \<^verbatim>\<open>bytes(data_bytes)\<close> on a list of integers: every element has to be in
  \<^verbatim>\<open>range(256)\<close>, otherwise the constructor raises \<^verbatim>\<open>ValueError\<close>.
\<close>

fun bytes_of_ints :: "int list \<Rightarrow> error + byte list" where
  "bytes_of_ints [] = Inr []"
| "bytes_of_ints (x # xs) =
     (if 0 \<le> x \<and> x < 256
      then (case bytes_of_ints xs of Inl e \<Rightarrow> Inl e | Inr bs \<Rightarrow> Inr (word_of_int x # bs))
      else Inl ValueError)"

text \<open>
  \<^verbatim>\<open>struct.pack('<H', crc)\<close>: an unsigned 16-bit integer in little-endian order,
  low byte first. A value outside 0..65535 raises \<^verbatim>\<open>struct.error\<close>.
\<close>

definition struct_pack_H :: "int \<Rightarrow> error + byte list" where
  "struct_pack_H v =
     (if 0 \<le> v \<and> v \<le> 65535
      then Inr [word_of_int (v mod 256), word_of_int (v div 256)]
      else Inl StructError)"

text \<open>
  \<^verbatim>\<open>struct.unpack('<H', b)[0]\<close>: the buffer has to hold exactly two bytes,
  otherwise \<^verbatim>\<open>struct.error\<close> is raised.
\<close>

fun struct_unpack_H :: "byte list \<Rightarrow> error + int" where
  "struct_unpack_H [lo, hi] = Inr (uint lo + 256 * uint hi)"
| "struct_unpack_H _ = Inl StructError"

text \<open>The Python slice \<^verbatim>\<open>xs[i:j]\<close> for non-negative \<^verbatim>\<open>i\<close> and \<^verbatim>\<open>j\<close>; it never raises.\<close>

definition py_slice :: "nat \<Rightarrow> nat \<Rightarrow> 'a list \<Rightarrow> 'a list" where
  "py_slice i j xs = take (j - i) (drop i xs)"

text \<open>\<^verbatim>\<open>buffer.pop(0)\<close>: removes the first element, \<^verbatim>\<open>IndexError\<close> on an empty buffer.\<close>

fun pop0 :: "'a list \<Rightarrow> error + 'a list" where
  "pop0 [] = Inl IndexError"
| "pop0 (x # xs) = Inr xs"

section \<open>CRC16 (Modbus)\<close>

text \<open>One pass of the body of \<^verbatim>\<open>for _ in range(8)\<close>.\<close>

definition crc_shift :: "int \<Rightarrow> int" where
  "crc_shift crc =
     (if crc AND 1 \<noteq> 0 then (drop_bit 1 crc) XOR 0xA001 else drop_bit 1 crc)"

text \<open>The loop \<^verbatim>\<open>for _ in range(8)\<close>, with the number of passes left.\<close>

fun crc_bits :: "nat \<Rightarrow> int \<Rightarrow> int" where
  "crc_bits 0 crc = crc"
| "crc_bits (Suc n) crc = crc_bits n (crc_shift crc)"

text \<open>The loop \<^verbatim>\<open>for b in data\<close>, with the accumulator \<^verbatim>\<open>crc\<close>.\<close>

fun crc_loop :: "int \<Rightarrow> byte list \<Rightarrow> int" where
  "crc_loop crc [] = crc"
| "crc_loop crc (b # data) = crc_loop (crc_bits 8 (crc XOR uint b)) data"

definition crc16 :: "byte list \<Rightarrow> int" where
  "crc16 data = crc_loop 0xFFFF data"

section \<open>Packet generator\<close>

definition header :: "byte list" where
  "header = [0x24, 0x46, 0x53]"

definition create_packet :: "int list \<Rightarrow> error + byte list" where
  "create_packet data_bytes =
     (case bytes_of_ints data_bytes of
        Inl e \<Rightarrow> Inl e
      | Inr body \<Rightarrow>
          (let raw = header @ body;
               crc = crc16 raw
           in case struct_pack_H crc of
                Inl e \<Rightarrow> Inl e
              | Inr packed \<Rightarrow> Inr (raw @ packed)))"

section \<open>Serial receiver thread\<close>

text \<open>
  One pass through the body of the inner \<^verbatim>\<open>while True\<close> loop of
  \<^verbatim>\<open>serial_receiver\<close>, started with the given buffer. The pass either leaves the
  loop (\<open>Stop\<close>, the \<^verbatim>\<open>break\<close>), or pops the first byte and continues
  (\<open>Dropped\<close>, with the new buffer), or puts \<^verbatim>\<open>data_bytes\<close> in the queue and
  rebinds the buffer to \<^verbatim>\<open>buffer[16:]\<close> (\<open>Emitted\<close>, with the payload and the new
  buffer).
\<close>

datatype iteration = Stop | Dropped "byte list" | Emitted "byte list" "byte list"

definition inner_iteration :: "byte list \<Rightarrow> error + iteration" where
  "inner_iteration buffer =
     (if length buffer < 16 then Inr Stop
      else if py_slice 0 3 buffer \<noteq> header
      then (case pop0 buffer of Inl e \<Rightarrow> Inl e | Inr buffer' \<Rightarrow> Inr (Dropped buffer'))
      else
        (let packet = py_slice 0 16 buffer
         in case struct_unpack_H (py_slice 14 16 packet) of
              Inl e \<Rightarrow> Inl e
            | Inr received_crc \<Rightarrow>
                (let calculated_crc = crc16 (py_slice 0 14 packet)
                 in if received_crc \<noteq> calculated_crc
                    then (case pop0 buffer of
                            Inl e \<Rightarrow> Inl e
                          | Inr buffer' \<Rightarrow> Inr (Dropped buffer'))
                    else Inr (Emitted (py_slice 3 14 packet) (drop 16 buffer)))))"

text \<open>
  The inner loop: the buffer and the contents put in \<^verbatim>\<open>packet_queue\<close> so far
  (oldest first) go in, the buffer and the queue at the \<^verbatim>\<open>break\<close> come out.
\<close>

function inner_loop :: "byte list \<Rightarrow> byte list list \<Rightarrow> error + (byte list \<times> byte list list)" where
  "inner_loop buffer packet_queue =
     (case inner_iteration buffer of
        Inl e \<Rightarrow> Inl e
      | Inr Stop \<Rightarrow> Inr (buffer, packet_queue)
      | Inr (Dropped buffer') \<Rightarrow> inner_loop buffer' packet_queue
      | Inr (Emitted data_bytes buffer') \<Rightarrow> inner_loop buffer' (packet_queue @ [data_bytes]))"
  by pat_completeness auto
termination
proof (relation "measure (\<lambda>(buffer, packet_queue). length buffer)")
  show "wf (measure (\<lambda>(buffer, packet_queue). length buffer))"
    by simp
next
  fix buffer :: "byte list" and packet_queue :: "byte list list" and x buffer'
  assume "inner_iteration buffer = Inr x" "x = Dropped buffer'"
  then show "((buffer', packet_queue), (buffer, packet_queue))
      \<in> measure (\<lambda>(buffer, packet_queue). length buffer)"
    by (cases buffer) (auto simp: inner_iteration_def Let_def split: if_splits sum.splits)
next
  fix buffer :: "byte list" and packet_queue :: "byte list list" and x data_bytes buffer'
  assume "inner_iteration buffer = Inr x" "x = Emitted data_bytes buffer'"
  then show "((buffer', packet_queue @ [data_bytes]), (buffer, packet_queue))
      \<in> measure (\<lambda>(buffer, packet_queue). length buffer)"
    by (cases buffer) (auto simp: inner_iteration_def Let_def split: if_splits sum.splits)
qed

declare inner_loop.simps [simp del]

text \<open>
  The outer loop \<^verbatim>\<open>while not stop_event.is_set()\<close>, run against the outcomes of the
  successive calls of \<^verbatim>\<open>ser.read(64)\<close>: bytes (possibly none, on a read timeout) or a
  \<^verbatim>\<open>serial.SerialException\<close>. The list of outcomes ends where the stop event is found
  set.
\<close>

datatype read_result = Data "byte list" | SerialException

fun receiver_loop ::
  "byte list \<Rightarrow> byte list list \<Rightarrow> read_result list \<Rightarrow> error + (byte list \<times> byte list list)" where
  "receiver_loop buffer packet_queue [] = Inr (buffer, packet_queue)"
| "receiver_loop buffer packet_queue (SerialException # reads) = Inr (buffer, packet_queue)"
| "receiver_loop buffer packet_queue (Data data # reads) =
     (if data = [] then receiver_loop buffer packet_queue reads
      else (case inner_loop (buffer @ data) packet_queue of
              Inl e \<Rightarrow> Inl e
            | Inr (buffer', packet_queue') \<Rightarrow> receiver_loop buffer' packet_queue' reads))"

definition serial_receiver :: "read_result list \<Rightarrow> error + (byte list \<times> byte list list)" where
  "serial_receiver reads = receiver_loop [] [] reads"

section \<open>Python floats\<close>

text \<open>
  A Python \<^verbatim>\<open>float\<close> is an IEEE 754 binary64 number. A finite one is modelled by
  the rational number it denotes, and an arithmetic operation by the exact operation
  followed by rounding to the nearest number with a 53-bit significand, ties going to
  the even significand. The exponent range of binary64 is not modelled: the
  comparison below divides a difference of two bytes by a non-zero byte and
  multiplies by 100, so every non-zero value it rounds has a magnitude between
  \<open>1 / 255\<close> and \<open>25500\<close>, far from overflow and from the subnormal numbers.

  \<open>ilog2 x\<close> is the exponent of a positive rational: the integer \<open>e\<close> with
  \<open>2 ^ e \<le> x < 2 ^ (e + 1)\<close>.
\<close>

definition ilog2 :: "rat \<Rightarrow> int" where
  "ilog2 x =
     (let (p, q) = quotient_of x;
          e = bitlen p - bitlen q
      in if 2 powi e \<le> x then e else e - 1)"

definition round_double :: "rat \<Rightarrow> rat" where
  "round_double x =
     (if x = 0 then 0
      else
        (let ulp = 2 powi (ilog2 \<bar>x\<bar> - 52);
             q = \<bar>x\<bar> / ulp;
             n = \<lfloor>q\<rfloor>;
             r = q - of_int n;
             m = (if r < 1 / 2 then n
                  else if 1 / 2 < r then n + 1
                  else if even n then n else n + 1)
         in sgn x * of_int m * ulp))"

text \<open>
  \<^verbatim>\<open>a / b\<close> on two integers is true division: the correctly rounded quotient, or
  \<^verbatim>\<open>ZeroDivisionError\<close>.
\<close>

definition true_div :: "int \<Rightarrow> int \<Rightarrow> error + rat" where
  "true_div a b =
     (if b = 0 then Inl ZeroDivisionError else Inr (round_double (of_int a / of_int b)))"

text \<open>\<^verbatim>\<open>x * n\<close> for a float and a small integer, which converts to a float exactly.\<close>

definition float_mul :: "rat \<Rightarrow> int \<Rightarrow> rat" where
  "float_mul x n = round_double (x * of_int n)"

section \<open>Main thread: sender and processor\<close>

text \<open>\<^verbatim>\<open>xs[idx]\<close> for an index that is not negative.\<close>

definition getitem :: "'a list \<Rightarrow> nat \<Rightarrow> error + 'a" where
  "getitem xs idx = (if idx < length xs then Inr (xs ! idx) else Inl IndexError)"

text \<open>
  The dictionary appended to \<^verbatim>\<open>results_all\<close>, with its keys \<^verbatim>\<open>"id"\<close>,
  \<^verbatim>\<open>"expected"\<close>, \<^verbatim>\<open>"received"\<close>, \<^verbatim>\<open>"error"\<close> and \<^verbatim>\<open>"status"\<close>.
\<close>

record comparison =
  r_id :: int
  r_expected :: int
  r_received :: int
  r_error :: rat
  r_status :: string

text \<open>The body of \<^verbatim>\<open>for idx in range(11)\<close>, up to the dictionary it appends.\<close>

definition compare_field :: "int list \<Rightarrow> byte list \<Rightarrow> nat \<Rightarrow> error + comparison" where
  "compare_field expected_data recv_data idx =
     (case getitem expected_data idx of
        Inl e \<Rightarrow> Inl e
      | Inr expected \<Rightarrow>
          (case getitem recv_data idx of
             Inl e \<Rightarrow> Inl e
           | Inr b \<Rightarrow>
               (let received = uint b
                in case true_div (received - expected) expected of
                     Inl e \<Rightarrow> Inl e
                   | Inr ratio \<Rightarrow>
                       (let error = float_mul ratio 100;
                            status = (if \<bar>error\<bar> \<le> 1 then ''PASS'' else ''FAIL'')
                        in Inr \<lparr>r_id = int idx + 1, r_expected = expected,
                                r_received = received, r_error = error,
                                r_status = status\<rparr>))))"

text \<open>The loop \<^verbatim>\<open>for idx in range(11)\<close> over the indices left, appending to \<^verbatim>\<open>results_all\<close>.\<close>

fun field_loop ::
  "int list \<Rightarrow> byte list \<Rightarrow> nat list \<Rightarrow> comparison list \<Rightarrow> error + comparison list" where
  "field_loop expected_data recv_data [] results_all = Inr results_all"
| "field_loop expected_data recv_data (idx # idxs) results_all =
     (case compare_field expected_data recv_data idx of
        Inl e \<Rightarrow> Inl e
      | Inr r \<Rightarrow> field_loop expected_data recv_data idxs (results_all @ [r]))"

text \<open>
  The outcome of one \<^verbatim>\<open>packet_queue.get(timeout=1)\<close>: the wait runs out (the call
  raises, and the bare \<^verbatim>\<open>except\<close> catches it) or a payload arrives.
\<close>

datatype get_result = Timeout | Item "byte list"

record session =
  received_packets :: int
  results_all :: "comparison list"
  printed :: "string list"

text \<open>
  How the loop \<^verbatim>\<open>while received_packets < packets_to_send\<close> stands after a given list
  of outcomes of \<^verbatim>\<open>get\<close>: it has left the loop (\<open>Finished\<close>), it is still in it and
  waits for the next outcome (\<open>Waiting\<close>), or an exception has ended the program
  (\<open>Raised\<close>).
\<close>

datatype outcome = Finished session | Waiting session | Raised error

fun consume_loop :: "int list \<Rightarrow> int \<Rightarrow> session \<Rightarrow> get_result list \<Rightarrow> outcome" where
  "consume_loop expected_data packets_to_send s [] =
     (if received_packets s < packets_to_send then Waiting s else Finished s)"
| "consume_loop expected_data packets_to_send s (g # gets) =
     (if received_packets s < packets_to_send
      then (case g of
              Timeout \<Rightarrow>
                consume_loop expected_data packets_to_send
                  (s\<lparr>printed := printed s @ [''Timeout waiting for packet'']\<rparr>) gets
            | Item recv_data \<Rightarrow>
                (case field_loop expected_data recv_data [0..<11] (results_all s) of
                   Inl e \<Rightarrow> Raised e
                 | Inr results \<Rightarrow>
                     consume_loop expected_data packets_to_send
                       (s\<lparr>received_packets := received_packets s + 1,
                          results_all := results\<rparr>) gets))
      else Finished s)"

text \<open>The constants of \<^verbatim>\<open>main\<close>.\<close>

definition expected_data :: "int list" where
  "expected_data = [10, 20, 30, 40, 50, 60, 70, 80, 90, 100, 110]"

definition packets_to_send :: int where
  "packets_to_send = 5"

text \<open>
  The loop \<^verbatim>\<open>for _ in range(packets_to_send)\<close> that builds and writes the packets; the
  result is the list of packets written to the port.
\<close>

fun send_loop :: "int list \<Rightarrow> nat \<Rightarrow> byte list list \<Rightarrow> error + byte list list" where
  "send_loop data 0 written = Inr written"
| "send_loop data (Suc n) written =
     (case create_packet data of
        Inl e \<Rightarrow> Inl e
      | Inr packet \<Rightarrow> send_loop data n (written @ [packet]))"

text \<open>
  \<^verbatim>\<open>main\<close> from the first packet sent to the end of the processing loop, against the
  outcomes of the successive \<^verbatim>\<open>get\<close> calls. The port, the receiver thread and
  the report are outside the model.
\<close>

definition main :: "get_result list \<Rightarrow> outcome" where
  "main gets =
     (case send_loop expected_data (nat packets_to_send) [] of
        Inl e \<Rightarrow> Raised e
      | Inr written \<Rightarrow>
          consume_loop expected_data packets_to_send
            \<lparr>received_packets = 0, results_all = [],
             printed = [''Serial receiver thread started...'']\<rparr> gets)"

text \<open>The payloads among the outcomes of \<^verbatim>\<open>get\<close>, in their order of arrival.\<close>

fun items :: "get_result list \<Rightarrow> byte list list" where
  "items [] = []"
| "items (Timeout # gets) = items gets"
| "items (Item recv_data # gets) = recv_data # items gets"

section \<open>Reference definitions, following the specification\<close>

text \<open>
  The checksum as the specification words it, on a 16-bit accumulator: start from
  \<open>0xFFFF\<close>; for each byte, XOR it into the low byte of the accumulator, then eight
  times shift right by one bit and XOR with \<open>0xA001\<close> when the low bit was 1.
\<close>

definition spec_xor_low_byte :: "16 word \<Rightarrow> byte \<Rightarrow> 16 word" where
  "spec_xor_low_byte acc b = (acc AND 0xFF00) OR ((acc AND 0x00FF) XOR ucast b)"

definition spec_shift :: "16 word \<Rightarrow> 16 word" where
  "spec_shift acc = (if bit acc 0 then drop_bit 1 acc XOR 0xA001 else drop_bit 1 acc)"

definition checksum_spec :: "byte list \<Rightarrow> 16 word" where
  "checksum_spec data =
     fold (\<lambda>b acc. (spec_shift ^^ 8) (spec_xor_low_byte acc b)) data 0xFFFF"

text \<open>
  The specification's \<open>tryDecode\<close> of a candidate: a candidate of 16 bytes is rejected
  when its first three bytes are not the magic constant or when the checksum of its
  bytes 0..13 is not the little-endian 16-bit number in its bytes 14..15; otherwise
  the result is the payload, its bytes 3..13.
\<close>

definition magic :: "byte list" where
  "magic = [0x24, 0x46, 0x53]"

definition tryDecode_spec :: "byte list \<Rightarrow> byte list option" where
  "tryDecode_spec candidate =
     (if length candidate = 16 \<and> take 3 candidate = magic
         \<and> uint (checksum_spec (take 14 candidate))
             = uint (candidate ! 14) + 256 * uint (candidate ! 15)
      then Some (take 11 (drop 3 candidate))
      else None)"

section \<open>Streams of frames and junk\<close>

text \<open>
  A byte stream made of valid frames with junk before, between and after them is
  described by its segments: a run of junk bytes, or the frame that
  \<open>create_packet\<close> builds for a payload.
\<close>

datatype segment = Junk "byte list" | Frame "byte list"

definition frame_bytes :: "byte list \<Rightarrow> byte list" where
  "frame_bytes payload =
     (case create_packet (map uint payload) of Inl e \<Rightarrow> [] | Inr packet \<Rightarrow> packet)"

fun stream :: "segment list \<Rightarrow> byte list" where
  "stream [] = []"
| "stream (Junk junk # segs) = junk @ stream segs"
| "stream (Frame payload # segs) = frame_bytes payload @ stream segs"

fun payloads :: "segment list \<Rightarrow> byte list list" where
  "payloads [] = []"
| "payloads (Junk junk # segs) = payloads segs"
| "payloads (Frame payload # segs) = payload # payloads segs"

text \<open>
  The frames carry payloads of 11 bytes, and no 16 bytes of the stream that start at a
  junk byte decode as a frame.
\<close>

fun no_spurious :: "segment list \<Rightarrow> bool" where
  "no_spurious [] = True"
| "no_spurious (Junk junk # segs) =
     (list_all (\<lambda>k. tryDecode_spec (take 16 (drop k (junk @ stream segs))) = None)
        [0..<length junk]
      \<and> no_spurious segs)"
| "no_spurious (Frame payload # segs) = (length payload = 11 \<and> no_spurious segs)"

section \<open>The checksum stays within 16 bits\<close>

lemma crc_shift_range:
  assumes "0 \<le> c" "c < 2 ^ 16"
  shows "0 \<le> crc_shift c \<and> crc_shift c < 2 ^ 16"
proof -
  have d: "0 \<le> drop_bit 1 c" "drop_bit 1 c < 2 ^ 16"
    using assms by (simp_all add: drop_bit_eq_div)
  have "drop_bit 1 c XOR 0xA001 < 2 ^ 16"
    by (rule XOR_upper) (use d in simp_all)
  moreover have "0 \<le> drop_bit 1 c XOR 0xA001"
    using d by simp
  ultimately show ?thesis
    using d by (simp add: crc_shift_def)
qed

lemma crc_bits_range:
  "0 \<le> c \<Longrightarrow> c < 2 ^ 16 \<Longrightarrow> 0 \<le> crc_bits n c \<and> crc_bits n c < 2 ^ 16"
  by (induction n arbitrary: c) (use crc_shift_range in auto)

lemma xor_byte_range:
  fixes b :: byte
  assumes "0 \<le> c" "c < 2 ^ 16"
  shows "0 \<le> c XOR uint b \<and> c XOR uint b < 2 ^ 16"
proof -
  have "uint b < 2 ^ 8" using uint_bounded [of b] by simp
  then have "uint b < 2 ^ 16" by simp
  then have "c XOR uint b < 2 ^ 16"
    using assms by (intro XOR_upper) simp_all
  then show ?thesis using assms by simp
qed

lemma crc_loop_range:
  "0 \<le> c \<Longrightarrow> c < 2 ^ 16 \<Longrightarrow> 0 \<le> crc_loop c data \<and> crc_loop c data < 2 ^ 16"
proof (induction data arbitrary: c)
  case Nil
  then show ?case by simp
next
  case (Cons b data)
  have "0 \<le> crc_bits 8 (c XOR uint b) \<and> crc_bits 8 (c XOR uint b) < 2 ^ 16"
    using xor_byte_range [OF Cons.prems] crc_bits_range by blast
  then show ?case using Cons.IH by simp
qed

lemma crc16_range: "0 \<le> crc16 data \<and> crc16 data < 2 ^ 16"
  unfolding crc16_def by (rule crc_loop_range) simp_all

section \<open>The checksum against its reference definition\<close>

lemma spec_xor_low_byte_eq: "spec_xor_low_byte acc b = acc XOR ucast b"
proof -
  have m1: "(0xFF :: 16 word) = mask 8" by (simp add: mask_eq_exp_minus_1)
  have m2: "(0xFF00 :: 16 word) = NOT (mask 8)" by (simp add: mask_eq_exp_minus_1)
  show ?thesis
    unfolding spec_xor_low_byte_def m1 m2
    by (rule bit_word_eqI) (auto simp add: bit_simps dest: bit_imp_le_length)
qed

lemma uint_spec_shift: "uint (spec_shift acc) = crc_shift (uint acc)"
proof -
  have a: "uint (drop_bit 1 acc) = drop_bit 1 (uint acc)"
    by (metis of_nat_drop_bit of_nat_unat unat_drop_bit_eq)
  have "(uint acc AND 1 \<noteq> 0) = bit (uint acc) 0"
    by (simp add: and_one_eq bit_0 mod_2_eq_odd)
  also have "\<dots> = bit acc 0"
    by (simp only: bit_uint_iff) simp
  finally have b: "(uint acc AND 1 \<noteq> 0) = bit acc 0" .
  show ?thesis
    unfolding spec_shift_def crc_shift_def a [symmetric] b
    by (simp add: uint_xor)
qed

lemma uint_spec_shift_funpow: "uint ((spec_shift ^^ n) acc) = crc_bits n (uint acc)"
  by (induction n arbitrary: acc) (simp_all add: funpow_swap1 uint_spec_shift)

lemma uint_fold_spec:
  "uint (fold (\<lambda>b acc. (spec_shift ^^ 8) (spec_xor_low_byte acc b)) data acc)
     = crc_loop (uint acc) data"
proof (induction data arbitrary: acc)
  case Nil
  show ?case by simp
next
  case (Cons b data)
  have "uint (spec_xor_low_byte acc b) = uint acc XOR uint b"
    by (simp add: spec_xor_low_byte_eq uint_xor uint_up_ucast is_up)
  then show ?case
    by (simp add: Cons.IH uint_spec_shift_funpow)
qed

lemma crc16_checksum_spec: "crc16 data = uint (checksum_spec data)"
  by (simp add: crc16_def checksum_spec_def uint_fold_spec)

section \<open>Building a packet\<close>

lemma bytes_of_ints_in_range:
  "\<forall>x\<in>set xs. 0 \<le> x \<and> x < 256 \<Longrightarrow> bytes_of_ints xs = Inr (map word_of_int xs)"
  by (induction xs) simp_all

lemma bytes_of_ints_uint: "bytes_of_ints (map uint body) = Inr body"
proof -
  have "\<forall>x\<in>set (map uint body). 0 \<le> x \<and> x < 256"
  proof
    fix x assume "x \<in> set (map uint body)"
    then obtain b :: byte where "x = uint b" by auto
    then show "0 \<le> x \<and> x < 256" using uint_bounded [of b] by simp
  qed
  then have "bytes_of_ints (map uint body) = Inr (map word_of_int (map uint body))"
    by (rule bytes_of_ints_in_range)
  then show ?thesis by (simp add: comp_def)
qed

lemma bytes_of_ints_out_of_range:
  "\<not> (\<forall>x\<in>set xs. 0 \<le> x \<and> x < 256) \<Longrightarrow> bytes_of_ints xs = Inl ValueError"
  by (induction xs) (auto split: sum.splits)

lemma struct_pack_H_crc16:
  "struct_pack_H (crc16 data) =
     Inr [word_of_int (crc16 data mod 256), word_of_int (crc16 data div 256)]"
  using crc16_range [of data] by (simp add: struct_pack_H_def)

lemma create_packet_bytes:
  "create_packet (map uint body) =
     Inr (header @ body @ [word_of_int (crc16 (header @ body) mod 256),
                           word_of_int (crc16 (header @ body) div 256)])"
  by (simp add: create_packet_def bytes_of_ints_uint struct_pack_H_crc16 Let_def)

lemma unpack_pack_crc16:
  "struct_unpack_H [word_of_int (crc16 data mod 256), word_of_int (crc16 data div 256)]
     = Inr (crc16 data)"
proof -
  let ?c = "crc16 data"
  have r: "0 \<le> ?c" "?c < 65536" using crc16_range [of data] by simp_all
  have lo: "uint (word_of_int (?c mod 256) :: byte) = ?c mod 256"
    by (simp add: uint_word_of_int)
  have "?c div 256 < 256" using r by simp
  moreover have "0 \<le> ?c div 256" using r by simp
  ultimately have hi: "uint (word_of_int (?c div 256) :: byte) = ?c div 256"
    by (simp add: uint_word_of_int)
  show ?thesis by (simp add: lo hi)
qed

section \<open>One pass of the inner loop\<close>

lemma struct_unpack_H_window:
  assumes len: "16 \<le> length buffer"
  shows "struct_unpack_H (py_slice 14 16 (py_slice 0 16 buffer))
       = Inr (uint (buffer ! 14) + 256 * uint (buffer ! 15))"
proof -
  have "py_slice 14 16 (py_slice 0 16 buffer) = take 2 (drop 14 buffer)"
    by (simp add: py_slice_def drop_take)
  also have "\<dots> = [buffer ! 14, buffer ! 15]"
    using len by (simp add: take_Suc_conv_app_nth numeral_2_eq_2)
  finally show ?thesis by simp
qed

lemma pop0_drop: "buffer \<noteq> [] \<Longrightarrow> pop0 buffer = Inr (drop 1 buffer)"
  by (cases buffer) simp_all

lemma tryDecode_spec_window:
  assumes "16 \<le> length buffer"
  shows "tryDecode_spec (take 16 buffer) =
     (if take 3 buffer = header
         \<and> uint (buffer ! 14) + 256 * uint (buffer ! 15) = crc16 (take 14 buffer)
      then Some (take 11 (drop 3 buffer)) else None)"
  using assms
  by (simp add: tryDecode_spec_def magic_def header_def crc16_checksum_spec
      drop_take min_def)

lemma inner_iteration_long:
  assumes "16 \<le> length buffer"
  shows "inner_iteration buffer =
     Inr (case tryDecode_spec (take 16 buffer) of
            None \<Rightarrow> Dropped (drop 1 buffer)
          | Some data_bytes \<Rightarrow> Emitted data_bytes (drop 16 buffer))"
proof -
  have ne: "buffer \<noteq> []" using assms by auto
  have s1: "py_slice 0 3 buffer = take 3 buffer" by (simp add: py_slice_def)
  have s2: "py_slice 0 14 (py_slice 0 16 buffer) = take 14 buffer" by (simp add: py_slice_def)
  have s3: "py_slice 3 14 (py_slice 0 16 buffer) = take 11 (drop 3 buffer)"
    by (simp add: py_slice_def drop_take)
  show ?thesis
    using assms
    by (simp add: inner_iteration_def Let_def s1 s2 s3 struct_unpack_H_window
        pop0_drop [OF ne] tryDecode_spec_window)
qed

lemma inner_iteration_short: "length buffer < 16 \<Longrightarrow> inner_iteration buffer = Inr Stop"
  by (simp add: inner_iteration_def)

section \<open>The inner loop\<close>

lemma inner_loop_short:
  "length buffer < 16 \<Longrightarrow> inner_loop buffer packet_queue = Inr (buffer, packet_queue)"
  by (subst inner_loop.simps) (simp add: inner_iteration_short)

lemma inner_loop_drop:
  assumes "16 \<le> length buffer" "tryDecode_spec (take 16 buffer) = None"
  shows "inner_loop buffer packet_queue = inner_loop (drop 1 buffer) packet_queue"
  by (subst inner_loop.simps) (simp add: inner_iteration_long assms)

lemma inner_loop_emit:
  assumes "16 \<le> length buffer" "tryDecode_spec (take 16 buffer) = Some data_bytes"
  shows "inner_loop buffer packet_queue
     = inner_loop (drop 16 buffer) (packet_queue @ [data_bytes])"
  by (subst inner_loop.simps) (simp add: inner_iteration_long assms)

lemma inner_loop_total:
  "\<exists>buffer' out. inner_loop buffer packet_queue = Inr (buffer', packet_queue @ out)
     \<and> length buffer' < 16"
proof (induction "length buffer" arbitrary: buffer packet_queue rule: less_induct)
  case less
  show ?case
  proof (cases "length buffer < 16")
    case True
    then show ?thesis by (simp add: inner_loop_short)
  next
    case False
    then have len: "16 \<le> length buffer" by simp
    show ?thesis
    proof (cases "tryDecode_spec (take 16 buffer)")
      case None
      have "length (drop 1 buffer) < length buffer" using len by simp
      from less [OF this, of packet_queue] show ?thesis
        by (simp add: inner_loop_drop [OF len None])
    next
      case (Some data_bytes)
      have "length (drop 16 buffer) < length buffer" using len by simp
      from less [OF this, of "packet_queue @ [data_bytes]"] show ?thesis
        by (auto simp add: inner_loop_emit [OF len Some])
    qed
  qed
qed

lemma inner_loop_append:
  "inner_loop buffer packet_queue = Inr (buffer', packet_queue') \<Longrightarrow>
     inner_loop (buffer @ rest) packet_queue = inner_loop (buffer' @ rest) packet_queue'"
proof (induction "length buffer" arbitrary: buffer packet_queue rule: less_induct)
  case less
  show ?case
  proof (cases "length buffer < 16")
    case True
    with less.prems show ?thesis by (simp add: inner_loop_short)
  next
    case False
    then have len: "16 \<le> length buffer" by simp
    then have len': "16 \<le> length (buffer @ rest)" by simp
    have win: "take 16 (buffer @ rest) = take 16 buffer" using len by simp
    show ?thesis
    proof (cases "tryDecode_spec (take 16 buffer)")
      case None
      have lt: "length (drop 1 buffer) < length buffer" using len by simp
      have "inner_loop (drop 1 buffer) packet_queue = Inr (buffer', packet_queue')"
        using less.prems by (simp add: inner_loop_drop [OF len None])
      from less.hyps [OF lt this]
      have "inner_loop (drop 1 buffer @ rest) packet_queue
          = inner_loop (buffer' @ rest) packet_queue'" .
      moreover have "inner_loop (buffer @ rest) packet_queue
          = inner_loop (drop 1 buffer @ rest) packet_queue"
        using len by (subst inner_loop_drop [OF len']) (simp_all add: win None)
      ultimately show ?thesis by simp
    next
      case (Some data_bytes)
      have lt: "length (drop 16 buffer) < length buffer" using len by simp
      have "inner_loop (drop 16 buffer) (packet_queue @ [data_bytes])
          = Inr (buffer', packet_queue')"
        using less.prems by (simp add: inner_loop_emit [OF len Some])
      from less.hyps [OF lt this]
      have "inner_loop (drop 16 buffer @ rest) (packet_queue @ [data_bytes])
          = inner_loop (buffer' @ rest) packet_queue'" .
      moreover have "inner_loop (buffer @ rest) packet_queue
          = inner_loop (drop 16 buffer @ rest) (packet_queue @ [data_bytes])"
        using len by (subst inner_loop_emit [OF len', of data_bytes]) (simp_all add: win Some)
      ultimately show ?thesis by simp
    qed
  qed
qed

section \<open>The outer loop over the reads\<close>

lemma receiver_loop_chunks:
  "length buffer < 16 \<Longrightarrow>
     receiver_loop buffer packet_queue (map Data chunks)
       = inner_loop (buffer @ concat chunks) packet_queue"
proof (induction chunks arbitrary: buffer packet_queue)
  case Nil
  then show ?case by (simp add: inner_loop_short)
next
  case (Cons data chunks)
  show ?case
  proof (cases "data = []")
    case True
    then show ?thesis using Cons by simp
  next
    case False
    obtain buffer' out where
      r: "inner_loop (buffer @ data) packet_queue = Inr (buffer', packet_queue @ out)"
      and l: "length buffer' < 16"
      using inner_loop_total [of "buffer @ data" packet_queue] by blast
    have "receiver_loop buffer packet_queue (map Data (data # chunks))
        = receiver_loop buffer' (packet_queue @ out) (map Data chunks)"
      using False r by simp
    also have "\<dots> = inner_loop (buffer' @ concat chunks) (packet_queue @ out)"
      by (rule Cons.IH [OF l])
    also have "\<dots> = inner_loop ((buffer @ data) @ concat chunks) packet_queue"
      by (rule inner_loop_append [OF r, symmetric])
    finally show ?thesis by simp
  qed
qed

section \<open>Frames in a stream\<close>

lemma frame_bytes_eq:
  "frame_bytes payload =
     header @ payload @ [word_of_int (crc16 (header @ payload) mod 256),
                         word_of_int (crc16 (header @ payload) div 256)]"
  by (simp add: frame_bytes_def create_packet_bytes)

lemma length_frame_bytes: "length (frame_bytes payload) = length payload + 5"
  by (simp add: frame_bytes_eq header_def)

lemma tryDecode_spec_frame:
  assumes "length payload = 11"
  shows "tryDecode_spec (frame_bytes payload) = Some payload"
proof -
  define raw where "raw = header @ payload"
  define lo :: byte where "lo = word_of_int (crc16 raw mod 256)"
  define hi :: byte where "hi = word_of_int (crc16 raw div 256)"
  let ?f = "frame_bytes payload"
  have f: "?f = raw @ [lo, hi]" by (simp add: frame_bytes_eq raw_def lo_def hi_def)
  have l14: "length raw = 14" using assms by (simp add: raw_def header_def)
  have len: "length ?f = 16" using assms by (simp add: length_frame_bytes)
  have t3: "take 3 ?f = magic" by (simp add: frame_bytes_eq header_def magic_def)
  have t14: "take 14 ?f = raw" unfolding f using l14 by simp
  have n14: "?f ! 14 = lo" unfolding f using l14 by (simp add: nth_append)
  have n15: "?f ! 15 = hi" unfolding f using l14 by (simp add: nth_append)
  have crc: "uint lo + 256 * uint hi = crc16 raw"
    using unpack_pack_crc16 [of raw] by (simp add: lo_def hi_def)
  have pl: "take 11 (drop 3 ?f) = payload"
    using assms by (simp add: frame_bytes_eq header_def)
  show ?thesis
    unfolding tryDecode_spec_def
    by (simp only: len t3 t14 n14 n15 crc pl crc16_checksum_spec [symmetric]) simp
qed

lemma inner_loop_frame:
  assumes "length payload = 11"
  shows "inner_loop (frame_bytes payload @ rest) packet_queue
     = inner_loop rest (packet_queue @ [payload])"
proof -
  have len: "length (frame_bytes payload) = 16"
    using assms by (simp add: length_frame_bytes)
  then have "16 \<le> length (frame_bytes payload @ rest)" by simp
  moreover have "tryDecode_spec (take 16 (frame_bytes payload @ rest)) = Some payload"
    using len by (simp add: tryDecode_spec_frame [OF assms])
  ultimately have "inner_loop (frame_bytes payload @ rest) packet_queue
      = inner_loop (drop 16 (frame_bytes payload @ rest)) (packet_queue @ [payload])"
    by (rule inner_loop_emit)
  then show ?thesis using len by simp
qed

lemma inner_loop_junk:
  assumes "\<forall>k < length junk. tryDecode_spec (take 16 (drop k (junk @ rest))) = None"
  shows "\<exists>residue residue' out.
     inner_loop (junk @ rest) packet_queue = Inr (residue, out)
     \<and> inner_loop rest packet_queue = Inr (residue', out) \<and> length residue < 16"
  using assms
proof (induction junk)
  case Nil
  then show ?case using inner_loop_total [of rest packet_queue] by auto
next
  case (Cons b junk)
  show ?case
  proof (cases "length ((b # junk) @ rest) < 16")
    case True
    then have "length rest < 16" by simp
    with True show ?thesis by (simp add: inner_loop_short)
  next
    case False
    then have len: "16 \<le> length ((b # junk) @ rest)" by simp
    have "tryDecode_spec (take 16 (drop 0 ((b # junk) @ rest))) = None"
      using Cons.prems by blast
    then have none: "tryDecode_spec (take 16 ((b # junk) @ rest)) = None" by simp
    have step: "inner_loop ((b # junk) @ rest) packet_queue
        = inner_loop (junk @ rest) packet_queue"
      using inner_loop_drop [OF len none, of packet_queue] by simp
    have "\<forall>k < length junk. tryDecode_spec (take 16 (drop k (junk @ rest))) = None"
    proof (intro allI impI)
      fix k assume "k < length junk"
      then have "Suc k < length (b # junk)" by simp
      with Cons.prems
      have "tryDecode_spec (take 16 (drop (Suc k) ((b # junk) @ rest))) = None" by blast
      then show "tryDecode_spec (take 16 (drop k (junk @ rest))) = None" by simp
    qed
    from Cons.IH [OF this] show ?thesis by (simp only: step)
  qed
qed

lemma inner_loop_stream:
  "no_spurious segs \<Longrightarrow>
     \<exists>residue. inner_loop (stream segs) packet_queue
         = Inr (residue, packet_queue @ payloads segs)
       \<and> length residue < 16"
proof (induction segs arbitrary: packet_queue)
  case Nil
  then show ?case by (simp add: inner_loop_short)
next
  case (Cons seg segs)
  show ?case
  proof (cases seg)
    case (Junk junk)
    with Cons.prems have
      j: "\<forall>k < length junk. tryDecode_spec (take 16 (drop k (junk @ stream segs))) = None"
      and ns: "no_spurious segs" by (simp_all add: list_all_iff)
    from inner_loop_junk [OF j, of packet_queue] obtain residue residue' out where
      a: "inner_loop (junk @ stream segs) packet_queue = Inr (residue, out)"
      and b: "inner_loop (stream segs) packet_queue = Inr (residue', out)"
      and l: "length residue < 16" by blast
    from Cons.IH [OF ns, of packet_queue] b have "out = packet_queue @ payloads segs"
      by auto
    with a l Junk show ?thesis by simp
  next
    case (Frame payload)
    with Cons.prems have len: "length payload = 11" and ns: "no_spurious segs"
      by simp_all
    from Cons.IH [OF ns, of "packet_queue @ [payload]"] Frame show ?thesis
      by (simp add: inner_loop_frame [OF len])
  qed
qed

section \<open>Properties of the checksum\<close>

text \<open>
  C4. The checksum function is the CRC-16 of the Modbus reference definition: for
  every byte sequence, the empty one included, \<open>crc16\<close> returns the 16-bit
  accumulator that the reference computes (start at \<open>0xFFFF\<close>, XOR each byte into
  the low byte, then eight times shift right and XOR with \<open>0xA001\<close> when the low bit
  was set). It is a function of the bytes alone, and its value on the empty sequence
  is the initial accumulator.
\<close>

theorem crc16_is_modbus_reference:
  "crc16 data = uint (checksum_spec data) \<and> crc16 [] = 0xFFFF"
  by (simp add: crc16_checksum_spec [symmetric]) (simp add: crc16_def)

text \<open>
  C10. For every byte sequence the checksum is between 0 and 65535, and so is every
  value the accumulator takes on the way (after the XOR with the next byte and after
  any number of shifts); packing it as a little-endian unsigned 16-bit integer
  succeeds and gives two bytes, and the frame built around a payload ends with
  exactly these two bytes.
\<close>

theorem crc16_fits_uint16:
  "(0 \<le> crc16 data \<and> crc16 data \<le> 65535)
   \<and> (0 \<le> crc_bits k (crc16 data XOR uint (b :: byte))
       \<and> crc_bits k (crc16 data XOR uint b) \<le> 65535)
   \<and> struct_pack_H (crc16 data)
       = Inr [word_of_int (crc16 data mod 256), word_of_int (crc16 data div 256)]
   \<and> (\<exists>lo hi. create_packet (map uint body) = Inr (header @ body @ [lo, hi]))"
proof -
  have r: "0 \<le> crc16 data" "crc16 data < 2 ^ 16"
    using crc16_range [of data] by simp_all
  have "0 \<le> crc16 data XOR uint b \<and> crc16 data XOR uint b < 2 ^ 16"
    by (rule xor_byte_range [OF r])
  then have "0 \<le> crc_bits k (crc16 data XOR uint b)
      \<and> crc_bits k (crc16 data XOR uint b) < 2 ^ 16"
    using crc_bits_range by blast
  then show ?thesis
    using r by (simp add: struct_pack_H_crc16 create_packet_bytes)
qed

section \<open>Properties of the frame buffer\<close>




section \<open>Properties of the packet generator\<close>

lemma tryDecode_spec_crc16 [code]:
  "tryDecode_spec candidate =
     (if length candidate = 16 \<and> take 3 candidate = magic
         \<and> crc16 (take 14 candidate) = uint (candidate ! 14) + 256 * uint (candidate ! 15)
      then Some (take 11 (drop 3 candidate))
      else None)"
  by (simp add: tryDecode_spec_def crc16_checksum_spec)

lemma map_uint_word_of_int:
  "\<forall>x\<in>set xs. 0 \<le> x \<and> x < 256 \<Longrightarrow> map uint (map word_of_int xs :: byte list) = xs"
  by (induction xs) (simp_all add: uint_word_of_int)

lemma inner_iteration_frame:
  assumes "length payload = 11"
  shows "inner_iteration (frame_bytes payload) = Inr (Emitted payload [])"
proof -
  have len: "length (frame_bytes payload) = 16"
    using assms by (simp add: length_frame_bytes)
  then have "16 \<le> length (frame_bytes payload)" by simp
  from inner_iteration_long [OF this] show ?thesis
    using len by (simp add: tryDecode_spec_frame [OF assms])
qed

text \<open>
  C1. Round trip: for every payload \<open>P\<close> of exactly 11 byte values,
  \<open>create_packet\<close> returns a frame of 16 bytes, and the framer's validation of that
  frame (header check, CRC-16 of bytes 0..13 against the little-endian number in
  bytes 14..15, payload from bytes 3..13) succeeds: the pass over a buffer holding
  the frame puts a payload with exactly the values of \<open>P\<close> in the queue and leaves
  the buffer empty.
\<close>

theorem create_packet_roundtrip:
  assumes "length P = 11" and "\<forall>x\<in>set P. 0 \<le> x \<and> x < 256"
  shows "\<exists>frame data_bytes.
     create_packet P = Inr frame
     \<and> length frame = 16
     \<and> inner_iteration frame = Inr (Emitted data_bytes [])
     \<and> tryDecode_spec frame = Some data_bytes
     \<and> inner_loop frame packet_queue = Inr ([], packet_queue @ [data_bytes])
     \<and> map uint data_bytes = P"
proof -
  define body :: "byte list" where "body = map word_of_int P"
  have P: "map uint body = P"
    unfolding body_def by (rule map_uint_word_of_int [OF assms(2)])
  have len: "length body = 11" using assms(1) by (simp add: body_def)
  have cp: "create_packet P = Inr (frame_bytes body)"
    using create_packet_bytes [of body] by (simp add: P frame_bytes_eq)
  have "inner_loop (frame_bytes body @ []) packet_queue = inner_loop [] (packet_queue @ [body])"
    by (rule inner_loop_frame [OF len])
  then have il: "inner_loop (frame_bytes body) packet_queue = Inr ([], packet_queue @ [body])"
    by (simp add: inner_loop_short)
  show ?thesis
    using cp len P il
    by (simp add: length_frame_bytes inner_iteration_frame tryDecode_spec_frame)
qed

theorem create_packet_roundtrip_witness:
  "length [10, 20, 30, 40, 50, 60, 70, 80, 90, 100, 110 :: int] = 11
   \<and> list_all (\<lambda>x. 0 \<le> x \<and> x < 256) [10, 20, 30, 40, 50, 60, 70, 80, 90, 100, 110 :: int]
   \<and> create_packet [10, 20, 30, 40, 50, 60, 70, 80, 90, 100, 110]
       = Inr [36, 70, 83, 10, 20, 30, 40, 50, 60, 70, 80, 90, 100, 110, 90, 110]
   \<and> inner_loop [36, 70, 83, 10, 20, 30, 40, 50, 60, 70, 80, 90, 100, 110, 90, 110] []
       = Inr ([], [[10, 20, 30, 40, 50, 60, 70, 80, 90, 100, 110]])"
proof -
  let ?P = "[10, 20, 30, 40, 50, 60, 70, 80, 90, 100, 110 :: int]"
  have 1: "length ?P = 11" by simp
  have 2: "\<forall>x\<in>set ?P. 0 \<le> x \<and> x < 256" by simp
  have 3: "create_packet ?P
      = Inr [36, 70, 83, 10, 20, 30, 40, 50, 60, 70, 80, 90, 100, 110, 90, 110]"
    by code_simp
  from create_packet_roundtrip [OF 1 2, of "[]"] obtain data_bytes where
    il: "inner_loop [36, 70, 83, 10, 20, 30, 40, 50, 60, 70, 80, 90, 100, 110, 90, 110] []
        = Inr ([], [data_bytes])"
    and td: "tryDecode_spec [36, 70, 83, 10, 20, 30, 40, 50, 60, 70, 80, 90, 100, 110, 90, 110]
        = Some data_bytes"
    unfolding 3 by auto
  have "tryDecode_spec [36, 70, 83, 10, 20, 30, 40, 50, 60, 70, 80, 90, 100, 110, 90, 110]
      = Some [10, 20, 30, 40, 50, 60, 70, 80, 90, 100, 110]"
    by code_simp
  with td have "data_bytes = [10, 20, 30, 40, 50, 60, 70, 80, 90, 100, 110]" by simp
  with il 1 2 3 show ?thesis by simp
qed

text \<open>
  C5, as the code has it. \<open>create_packet\<close> does not look at the length of the
  payload. For every list of integers between 0 and 255, of any length \<open>n\<close>, it
  returns a frame: the header, the payload and the two bytes of the checksum of
  both, \<open>n + 5\<close> bytes in all, which are 16 bytes exactly when \<open>n = 11\<close>. It fails
  only on a list with an element outside 0..255, and then with \<open>ValueError\<close>.
\<close>

theorem create_packet_any_length:
  "create_packet data_bytes =
     (if \<forall>x\<in>set data_bytes. 0 \<le> x \<and> x < 256
      then Inr (header @ map word_of_int data_bytes
                @ [word_of_int (crc16 (header @ map word_of_int data_bytes) mod 256),
                   word_of_int (crc16 (header @ map word_of_int data_bytes) div 256)])
      else Inl ValueError)
   \<and> (\<forall>frame. create_packet data_bytes = Inr frame \<longrightarrow>
        length frame = length data_bytes + 5
        \<and> (length frame = 16 \<longleftrightarrow> length data_bytes = 11))"
proof (cases "\<forall>x\<in>set data_bytes. 0 \<le> x \<and> x < 256")
  case True
  then show ?thesis
    by (auto simp add: create_packet_def bytes_of_ints_in_range struct_pack_H_crc16
        Let_def header_def)
next
  case False
  then show ?thesis
    by (simp add: create_packet_def bytes_of_ints_out_of_range)
qed

theorem create_packet_any_length_witness:
  "list_all (\<lambda>x. 0 \<le> x \<and> x < 256) [1, 2, 3 :: int]
   \<and> create_packet [1, 2, 3] = Inr [36, 70, 83, 1, 2, 3, 142, 213]
   \<and> length [36, 70, 83, 1, 2, 3, 142, 213 :: byte] = length [1, 2, 3 :: int] + 5
   \<and> \<not> list_all (\<lambda>x. 0 \<le> x \<and> x < 256) [1, 256 :: int]
   \<and> create_packet [1, 256] = Inl ValueError"
proof -
  have c: "crc16 (header @ map word_of_int [1, 2, 3 :: int]) = 54670"
    by code_simp
  have a: "create_packet [1, 2, 3] = Inr [36, 70, 83, 1, 2, 3, 142, 213]"
    using create_packet_any_length [of "[1, 2, 3]"] unfolding c
    by (simp add: header_def)
  have b: "create_packet [1, 256] = Inl ValueError"
    using create_packet_any_length [of "[1, 256]"] by simp
  show ?thesis using a b by simp
qed

text \<open>
  C5, as the specification states it, fails: a payload of three bytes is not rejected, the
  call returns a frame of eight bytes.
\<close>

theorem create_packet_short_payload_accepted:
  "length [1, 2, 3 :: int] \<noteq> 11
   \<and> create_packet [1, 2, 3] = Inr [36, 70, 83, 1, 2, 3, 142, 213]"
  by code_simp

section \<open>Properties of the stream framer\<close>

text \<open>
  C3. Resync step policy. In a pass of the inner loop over a buffer of at least 16
  bytes: when the 16 bytes at the front fail the validation, for a bad header or for
  a bad checksum (\<open>tryDecode\<close> rejects them), exactly one byte is removed from the
  front and nothing else changes; when they pass, the payload (bytes 3..13) is put
  in the queue and exactly these 16 bytes are removed from the front. The loop goes
  on with the shortened buffer.
\<close>

theorem resync_step_policy:
  assumes "16 \<le> length buffer"
  shows "(take 3 buffer \<noteq> header
            \<or> uint (buffer ! 14) + 256 * uint (buffer ! 15) \<noteq> crc16 (take 14 buffer)
          \<longrightarrow> tryDecode_spec (take 16 buffer) = None
              \<and> inner_iteration buffer = Inr (Dropped (drop 1 buffer))
              \<and> length (drop 1 buffer) = length buffer - 1
              \<and> inner_loop buffer packet_queue = inner_loop (drop 1 buffer) packet_queue)
       \<and> (take 3 buffer = header
            \<and> uint (buffer ! 14) + 256 * uint (buffer ! 15) = crc16 (take 14 buffer)
          \<longrightarrow> tryDecode_spec (take 16 buffer) = Some (take 11 (drop 3 buffer))
              \<and> inner_iteration buffer
                  = Inr (Emitted (take 11 (drop 3 buffer)) (drop 16 buffer))
              \<and> length (drop 16 buffer) = length buffer - 16
              \<and> inner_loop buffer packet_queue
                  = inner_loop (drop 16 buffer) (packet_queue @ [take 11 (drop 3 buffer)]))"
proof (intro conjI impI)
  assume bad: "take 3 buffer \<noteq> header
      \<or> uint (buffer ! 14) + 256 * uint (buffer ! 15) \<noteq> crc16 (take 14 buffer)"
  then show none: "tryDecode_spec (take 16 buffer) = None"
    by (auto simp add: tryDecode_spec_window [OF assms])
  show "inner_iteration buffer = Inr (Dropped (drop 1 buffer))"
    by (simp add: inner_iteration_long [OF assms] none)
  show "length (drop 1 buffer) = length buffer - 1" by simp
  show "inner_loop buffer packet_queue = inner_loop (drop 1 buffer) packet_queue"
    by (rule inner_loop_drop [OF assms none])
next
  assume good: "take 3 buffer = header
      \<and> uint (buffer ! 14) + 256 * uint (buffer ! 15) = crc16 (take 14 buffer)"
  then show some: "tryDecode_spec (take 16 buffer) = Some (take 11 (drop 3 buffer))"
    by (simp add: tryDecode_spec_window [OF assms])
  show "inner_iteration buffer = Inr (Emitted (take 11 (drop 3 buffer)) (drop 16 buffer))"
    by (simp add: inner_iteration_long [OF assms] some)
  show "length (drop 16 buffer) = length buffer - 16" by simp
  show "inner_loop buffer packet_queue
      = inner_loop (drop 16 buffer) (packet_queue @ [take 11 (drop 3 buffer)])"
    by (rule inner_loop_emit [OF assms some])
qed

theorem resync_step_policy_witness:
  "16 \<le> length [36, 70, 83, 10, 20, 30, 40, 50, 60, 70, 80, 90, 100, 110, 90, 110, 7 :: byte]
   \<and> inner_iteration [36, 70, 83, 10, 20, 30, 40, 50, 60, 70, 80, 90, 100, 110, 90, 110, 7]
       = Inr (Emitted [10, 20, 30, 40, 50, 60, 70, 80, 90, 100, 110] [7])
   \<and> 16 \<le> length [36, 70, 83, 10, 20, 30, 40, 50, 60, 70, 80, 90, 100, 110, 90, 111, 7 :: byte]
   \<and> inner_iteration [36, 70, 83, 10, 20, 30, 40, 50, 60, 70, 80, 90, 100, 110, 90, 111, 7]
       = Inr (Dropped [70, 83, 10, 20, 30, 40, 50, 60, 70, 80, 90, 100, 110, 90, 111, 7])
   \<and> 16 \<le> length [0, 70, 83, 10, 20, 30, 40, 50, 60, 70, 80, 90, 100, 110, 90, 110, 7 :: byte]
   \<and> inner_iteration [0, 70, 83, 10, 20, 30, 40, 50, 60, 70, 80, 90, 100, 110, 90, 110, 7]
       = Inr (Dropped [70, 83, 10, 20, 30, 40, 50, 60, 70, 80, 90, 100, 110, 90, 110, 7])"
proof -
  let ?good = "[36, 70, 83, 10, 20, 30, 40, 50, 60, 70, 80, 90, 100, 110, 90, 110, 7 :: byte]"
  let ?badcrc = "[36, 70, 83, 10, 20, 30, 40, 50, 60, 70, 80, 90, 100, 110, 90, 111, 7 :: byte]"
  let ?badhdr = "[0, 70, 83, 10, 20, 30, 40, 50, 60, 70, 80, 90, 100, 110, 90, 110, 7 :: byte]"
  have c: "crc16 [36, 70, 83, 10, 20, 30, 40, 50, 60, 70, 80, 90, 100, 110] = 28250"
    by code_simp
  have g: "16 \<le> length ?good" by simp
  have b1: "16 \<le> length ?badcrc" by simp
  have b2: "16 \<le> length ?badhdr" by simp
  have 1: "inner_iteration ?good = Inr (Emitted [10, 20, 30, 40, 50, 60, 70, 80, 90, 100, 110] [7])"
    using resync_step_policy [OF g, of "[]"] by (simp add: header_def c)
  have 2: "inner_iteration ?badcrc
      = Inr (Dropped [70, 83, 10, 20, 30, 40, 50, 60, 70, 80, 90, 100, 110, 90, 111, 7])"
    using resync_step_policy [OF b1, of "[]"] by (simp add: header_def c)
  have 3: "inner_iteration ?badhdr
      = Inr (Dropped [70, 83, 10, 20, 30, 40, 50, 60, 70, 80, 90, 100, 110, 90, 110, 7])"
    using resync_step_policy [OF b2, of "[]"] by (simp add: header_def)
  show ?thesis using 1 2 3 by simp
qed

text \<open>
  C2. Resync correctness. Take any sequence of valid frames with any number of junk
  bytes before, between and after them, such that no 16 bytes of the stream that
  start at a junk byte form a valid frame. However the stream is cut into reads
  (empty reads included), the receiver puts in the queue exactly the payloads of
  the frames, in their order, each once, without raising; fewer than 16 bytes stay
  in the buffer.
\<close>

theorem resync_correctness:
  assumes "no_spurious segs" and "concat chunks = stream segs"
  shows "\<exists>residue. serial_receiver (map Data chunks) = Inr (residue, payloads segs)
     \<and> length residue < 16"
proof -
  have "serial_receiver (map Data chunks) = inner_loop ([] @ concat chunks) []"
    unfolding serial_receiver_def by (rule receiver_loop_chunks) simp
  then have "serial_receiver (map Data chunks) = inner_loop (stream segs) []"
    using assms(2) by simp
  with inner_loop_stream [OF assms(1), of "[]"] show ?thesis by simp
qed

theorem resync_correctness_witness:
  "no_spurious [Junk [1], Frame [10, 20, 30, 40, 50, 60, 70, 80, 90, 100, 110],
                Junk [36, 70, 83], Frame [1, 2, 3, 4, 5, 6, 7, 8, 9, 10, 11], Junk [9]]
   \<and> concat [[1, 36, 70, 83, 10, 20], [],
              [30, 40, 50, 60, 70, 80, 90, 100, 110, 90, 110, 36, 70, 83, 36, 70, 83, 1, 2, 3],
              [4, 5, 6, 7, 8, 9, 10, 11, 121, 113, 9]]
       = stream [Junk [1], Frame [10, 20, 30, 40, 50, 60, 70, 80, 90, 100, 110],
                 Junk [36, 70, 83], Frame [1, 2, 3, 4, 5, 6, 7, 8, 9, 10, 11], Junk [9]]
   \<and> (\<exists>residue.
        serial_receiver
          [Data [1, 36, 70, 83, 10, 20], Data [],
           Data [30, 40, 50, 60, 70, 80, 90, 100, 110, 90, 110, 36, 70, 83, 36, 70, 83, 1, 2, 3],
           Data [4, 5, 6, 7, 8, 9, 10, 11, 121, 113, 9]]
        = Inr (residue, [[10, 20, 30, 40, 50, 60, 70, 80, 90, 100, 110],
                         [1, 2, 3, 4, 5, 6, 7, 8, 9, 10, 11]])
        \<and> length residue < 16)"
proof -
  let ?segs = "[Junk [1], Frame [10, 20, 30, 40, 50, 60, 70, 80, 90, 100, 110],
                Junk [36, 70, 83], Frame [1, 2, 3, 4, 5, 6, 7, 8, 9, 10, 11], Junk [9]]"
  let ?chunks = "[[1, 36, 70, 83, 10, 20], [],
              [30, 40, 50, 60, 70, 80, 90, 100, 110, 90, 110, 36, 70, 83, 36, 70, 83, 1, 2, 3],
              [4, 5, 6, 7, 8, 9, 10, 11, 121, 113, 9 :: byte]]"
  have 1: "no_spurious ?segs" by code_simp
  have 2: "concat ?chunks = stream ?segs" by code_simp
  from resync_correctness [OF 1 2] 1 2 show ?thesis by simp
qed

section \<open>Rounding to binary64\<close>

lemma bitlen_pos_bounds:
  assumes "0 < p"
  shows "\<exists>a. bitlen p = int a + 1 \<and> 2 ^ a \<le> p \<and> p < 2 * 2 ^ a"
proof -
  have b: "2 ^ nat (bitlen p - 1) \<le> p" "p < 2 ^ nat (bitlen p)"
    using bitlen_bounds [OF assms] by simp_all
  have "bitlen p \<noteq> 0" using assms by (simp add: bitlen_eq_zero_iff)
  then have ge: "1 \<le> bitlen p" using bitlen_nonneg [of p] by linarith
  define a where "a = nat (bitlen p - 1)"
  have bl: "bitlen p = int a + 1" using ge by (simp add: a_def)
  have lo: "2 ^ a \<le> p" using b(1) unfolding a_def .
  have "nat (bitlen p) = Suc a" using ge by (simp add: a_def)
  with b(2) have "p < 2 ^ Suc a" by (simp only:)
  then have hi: "p < 2 * 2 ^ a" by simp
  from bl lo hi show ?thesis by blast
qed

lemma ratio_between:
  fixes A B P Q :: rat
  assumes "0 < A" "0 < B" "A \<le> P" "P < 2 * A" "B \<le> Q" "Q < 2 * B"
  shows "A / B / 2 \<le> P / Q \<and> P / Q < 2 * (A / B)"
proof -
  have Q: "0 < Q" using assms by linarith
  have P: "0 < P" using assms by linarith
  have "A * Q \<le> A * (2 * B)" using assms by (intro mult_left_mono) simp_all
  also have "\<dots> \<le> P * (2 * B)" using assms by (intro mult_right_mono) simp_all
  finally have 1: "A * Q \<le> P * (2 * B)" .
  have "P * B \<le> P * Q" using assms P by (intro mult_left_mono) simp_all
  also have "\<dots> < (2 * A) * Q" using assms Q by (intro mult_strict_right_mono) simp_all
  finally have 2: "P * B < 2 * A * Q" .
  have "A / B / 2 \<le> P / Q"
    using 1 Q assms(2) by (simp add: field_simps)
  moreover have "P / Q < 2 * (A / B)"
    using 2 Q assms(2) by (simp add: field_simps)
  ultimately show ?thesis ..
qed

lemma ilog2_bounds:
  assumes "0 < x"
  shows "2 powi ilog2 x \<le> x \<and> x < 2 powi (ilog2 x + 1)"
proof -
  obtain p q where pq: "quotient_of x = (p, q)" by (cases "quotient_of x")
  have q: "0 < q" by (rule quotient_of_denom_pos [OF pq])
  have x: "x = of_int p / of_int q" by (rule quotient_of_div [OF pq])
  have p: "0 < p" using assms q x by (simp add: zero_less_divide_iff)
  obtain a where a: "bitlen p = int a + 1" "2 ^ a \<le> p" "p < 2 * 2 ^ a"
    using bitlen_pos_bounds [OF p] by blast
  obtain b where b: "bitlen q = int b + 1" "2 ^ b \<le> q" "q < 2 * 2 ^ b"
    using bitlen_pos_bounds [OF q] by blast
  define e where "e = int a - int b"
  have e: "bitlen p - bitlen q = e" using a(1) b(1) by (simp add: e_def)
  have pe: "(2::rat) powi e = 2 ^ a / 2 ^ b"
    unfolding e_def by (simp add: power_int_diff)
  have pe1: "(2::rat) powi (e + 1) = 2 * (2 ^ a / 2 ^ b)"
    by (simp add: power_int_add pe)
  have pe2: "(2::rat) powi (e - 1) = 2 ^ a / 2 ^ b / 2"
    by (simp add: power_int_diff pe)
  have A: "(2::rat) ^ a \<le> of_int p" "of_int p < 2 * (2::rat) ^ a"
    using a(2,3) by (metis of_int_le_iff of_int_numeral of_int_power)
      (metis a(3) of_int_less_iff of_int_mult of_int_numeral of_int_power)
  have B: "(2::rat) ^ b \<le> of_int q" "of_int q < 2 * (2::rat) ^ b"
    using b(2,3) by (metis of_int_le_iff of_int_numeral of_int_power)
      (metis b(3) of_int_less_iff of_int_mult of_int_numeral of_int_power)
  have between: "2 powi (e - 1) \<le> x \<and> x < 2 powi (e + 1)"
    unfolding pe1 pe2 x
    by (rule ratio_between [OF _ _ A B]) simp_all
  have il: "ilog2 x = (if 2 powi e \<le> x then e else e - 1)"
    by (simp add: ilog2_def pq e)
  show ?thesis
  proof (cases "2 powi e \<le> x")
    case True
    with between il show ?thesis by simp
  next
    case False
    with between il show ?thesis by simp
  qed
qed

lemma round_double_uminus: "round_double (- x) = - round_double x"
  by (simp add: round_double_def Let_def)

lemma nearest_int_close:
  fixes q :: rat
  defines "n \<equiv> \<lfloor>q\<rfloor>"
  defines "r \<equiv> q - of_int n"
  defines "m \<equiv> (if r < 1 / 2 then n else if 1 / 2 < r then n + 1 else if even n then n else n + 1)"
  shows "\<bar>of_int m - q\<bar> \<le> 1 / 2"
proof -
  have "of_int n \<le> q" "q < of_int n + 1"
    unfolding n_def by linarith+
  then have r: "0 \<le> r" "r < 1" by (simp_all add: r_def)
  have q: "q = of_int n + r" by (simp add: r_def)
  show ?thesis
    unfolding m_def q using r by (auto simp add: abs_if)
qed

lemma round_double_error: "\<bar>round_double x - x\<bar> \<le> \<bar>x\<bar> / 2 ^ 53"
proof (cases "x = 0")
  case True
  then show ?thesis by (simp add: round_double_def)
next
  case False
  then have pos: "0 < \<bar>x\<bar>" by simp
  define ulp :: rat where "ulp = 2 powi (ilog2 \<bar>x\<bar> - 52)"
  define q where "q = \<bar>x\<bar> / ulp"
  define n where "n = \<lfloor>q\<rfloor>"
  define r where "r = q - of_int n"
  define m where "m = (if r < 1 / 2 then n else if 1 / 2 < r then n + 1
    else if even n then n else n + 1)"
  have rd: "round_double x = sgn x * of_int m * ulp"
    using False by (simp add: round_double_def Let_def ulp_def q_def n_def r_def m_def)
  have u: "0 < ulp" by (simp add: ulp_def zero_less_power_int)
  have close: "\<bar>of_int m - q\<bar> \<le> 1 / 2"
    unfolding m_def r_def n_def by (rule nearest_int_close)
  have x: "x = sgn x * q * ulp"
    using u by (simp add: q_def mult_sgn_abs)
  have "round_double x - x = sgn x * (of_int m - q) * ulp"
    by (subst (2) x) (simp add: rd algebra_simps)
  then have "\<bar>round_double x - x\<bar> = \<bar>of_int m - q\<bar> * ulp"
    using u False by (simp add: abs_mult abs_sgn_eq)
  also have "\<dots> \<le> 1 / 2 * ulp"
    using close u by (intro mult_right_mono) simp_all
  also have "ulp = 2 powi ilog2 \<bar>x\<bar> / 2 ^ 52"
    by (simp add: ulp_def power_int_diff)
  also have "1 / 2 * (2 powi ilog2 \<bar>x\<bar> / 2 ^ 52) \<le> 1 / 2 * (\<bar>x\<bar> / 2 ^ 52)"
    using ilog2_bounds [OF pos] by (intro mult_left_mono divide_right_mono) simp_all
  finally show ?thesis by simp
qed

lemma round_double_abs_bounds:
  "\<bar>x\<bar> * (1 - 1 / 2 ^ 53) \<le> \<bar>round_double x\<bar>
   \<and> \<bar>round_double x\<bar> \<le> \<bar>x\<bar> * (1 + 1 / 2 ^ 53)"
proof -
  have "\<bar>round_double x - x\<bar> \<le> \<bar>x\<bar> / 2 ^ 53" by (rule round_double_error)
  then have "\<bar>x\<bar> - \<bar>x\<bar> / 2 ^ 53 \<le> \<bar>round_double x\<bar>"
    and "\<bar>round_double x\<bar> \<le> \<bar>x\<bar> + \<bar>x\<bar> / 2 ^ 53"
    by linarith+
  then show ?thesis by (simp add: algebra_simps)
qed

lemma two_roundings_bounds:
  "100 * \<bar>x\<bar> * (1 - 1 / 2 ^ 53) * (1 - 1 / 2 ^ 53) \<le> \<bar>float_mul (round_double x) 100\<bar>
   \<and> \<bar>float_mul (round_double x) 100\<bar> \<le> 100 * \<bar>x\<bar> * (1 + 1 / 2 ^ 53) * (1 + 1 / 2 ^ 53)"
proof -
  define a where "a = round_double x"
  define y where "y = a * 100"
  have a: "\<bar>x\<bar> * (1 - 1 / 2 ^ 53) \<le> \<bar>a\<bar>" "\<bar>a\<bar> \<le> \<bar>x\<bar> * (1 + 1 / 2 ^ 53)"
    unfolding a_def using round_double_abs_bounds [of x] by blast+
  have b: "\<bar>y\<bar> * (1 - 1 / 2 ^ 53) \<le> \<bar>round_double y\<bar>"
    "\<bar>round_double y\<bar> \<le> \<bar>y\<bar> * (1 + 1 / 2 ^ 53)"
    using round_double_abs_bounds [of y] by blast+
  have y: "\<bar>y\<bar> = 100 * \<bar>a\<bar>" by (simp add: y_def abs_mult)
  have "100 * \<bar>x\<bar> * (1 - 1 / 2 ^ 53) * (1 - 1 / 2 ^ 53) \<le> \<bar>y\<bar> * (1 - 1 / 2 ^ 53)"
    unfolding y using a(1) by (intro mult_right_mono) simp_all
  with b(1) have lo: "100 * \<bar>x\<bar> * (1 - 1 / 2 ^ 53) * (1 - 1 / 2 ^ 53) \<le> \<bar>round_double y\<bar>"
    by linarith
  have "\<bar>y\<bar> * (1 + 1 / 2 ^ 53) \<le> 100 * \<bar>x\<bar> * (1 + 1 / 2 ^ 53) * (1 + 1 / 2 ^ 53)"
    unfolding y using a(2) by (intro mult_right_mono) simp_all
  with b(2) have hi: "\<bar>round_double y\<bar> \<le> 100 * \<bar>x\<bar> * (1 + 1 / 2 ^ 53) * (1 + 1 / 2 ^ 53)"
    by linarith
  show ?thesis using lo hi by (simp add: float_mul_def y_def a_def)
qed

lemma one_percent_exact: "round_double (round_double (1 / 100) * 100) = 1"
  by code_simp

lemma verdict_exact:
  fixes d e :: int
  assumes "0 < e" "e \<le> 255"
  shows "(\<bar>float_mul (round_double (of_int d / of_int e)) 100\<bar> \<le> 1) = (100 * \<bar>d\<bar> \<le> e)"
proof -
  define x :: rat where "x = of_int d / of_int e"
  define err where "err = float_mul (round_double x) 100"
  have e: "(0::rat) < of_int e" "(of_int e :: rat) \<le> 255" using assms by simp_all
  have ax: "100 * \<bar>x\<bar> = of_int (100 * \<bar>d\<bar>) / of_int e"
    using assms by (simp add: x_def abs_divide)
  have bnd: "100 * \<bar>x\<bar> * (1 - 1 / 2 ^ 53) * (1 - 1 / 2 ^ 53) \<le> \<bar>err\<bar>"
    "\<bar>err\<bar> \<le> 100 * \<bar>x\<bar> * (1 + 1 / 2 ^ 53) * (1 + 1 / 2 ^ 53)"
    unfolding err_def using two_roundings_bounds [of x] by blast+
  consider (lt) "100 * \<bar>d\<bar> < e" | (eq) "100 * \<bar>d\<bar> = e" | (gt) "e < 100 * \<bar>d\<bar>"
    by linarith
  then have "(\<bar>err\<bar> \<le> 1) = (100 * \<bar>d\<bar> \<le> e)"
  proof cases
    case lt
    then have "100 * \<bar>d\<bar> \<le> e - 1" by simp
    then have "(of_int (100 * \<bar>d\<bar>) :: rat) \<le> of_int (e - 1)" by (simp only: of_int_le_iff)
    then have "100 * \<bar>x\<bar> \<le> of_int (e - 1) / of_int e"
      unfolding ax using e(1) by (intro divide_right_mono) simp_all
    also have "\<dots> = 1 - 1 / of_int e" using e(1) by (simp add: field_simps)
    also have "\<dots> \<le> 1 - 1 / 255"
      using e by (simp add: field_simps)
    finally have "100 * \<bar>x\<bar> \<le> 254 / 255" by simp
    then have "100 * \<bar>x\<bar> * ((1 + 1 / 2 ^ 53) * (1 + 1 / 2 ^ 53))
        \<le> 254 / 255 * ((1 + 1 / 2 ^ 53) * (1 + 1 / 2 ^ 53))"
      by (intro mult_right_mono) simp_all
    also have "\<dots> < 1" by simp
    finally have "\<bar>err\<bar> < 1" using bnd(2) by (simp add: mult.assoc)
    with lt show ?thesis by simp
  next
    case gt
    then have "e + 1 \<le> 100 * \<bar>d\<bar>" by simp
    then have "(of_int (e + 1) :: rat) \<le> of_int (100 * \<bar>d\<bar>)" by (simp only: of_int_le_iff)
    then have "of_int (e + 1) / of_int e \<le> 100 * \<bar>x\<bar>"
      unfolding ax using e(1) by (intro divide_right_mono) simp_all
    moreover have "of_int (e + 1) / (of_int e :: rat) = 1 + 1 / of_int e"
      using e(1) by (simp add: field_simps)
    moreover have "1 + 1 / 255 \<le> 1 + 1 / (of_int e :: rat)"
      using e by (simp add: field_simps)
    ultimately have "256 / 255 \<le> 100 * \<bar>x\<bar>" by simp
    then have "256 / 255 * ((1 - 1 / 2 ^ 53) * (1 - 1 / 2 ^ 53))
        \<le> 100 * \<bar>x\<bar> * ((1 - 1 / 2 ^ 53) * (1 - 1 / 2 ^ 53))"
      by (intro mult_right_mono) simp_all
    moreover have "(1::rat) < 256 / 255 * ((1 - 1 / 2 ^ 53) * (1 - 1 / 2 ^ 53))" by simp
    ultimately have "1 < \<bar>err\<bar>" using bnd(1) by (simp add: mult.assoc)
    with gt show ?thesis by simp
  next
    case eq
    then have d0: "d \<noteq> 0" using assms by auto
    have xd: "x = of_int d / of_int (100 * \<bar>d\<bar>)" by (simp add: x_def eq)
    have x: "x = (if 0 < d then 1 / 100 else - (1 / 100))"
    proof (cases "0 < d")
      case True
      then have "x = of_int d / (100 * of_int d)" unfolding xd by simp
      also have "\<dots> = 1 / 100" using True by simp
      finally show ?thesis using True by simp
    next
      case False
      with d0 have neg: "d < 0" by simp
      then have "x = of_int d / (100 * (- of_int d))" unfolding xd by simp
      also have "\<dots> = - (1 / 100)" using neg by simp
      finally show ?thesis using False by simp
    qed
    have "\<bar>err\<bar> = 1"
      unfolding err_def float_mul_def x
      by (simp add: round_double_uminus one_percent_exact)
    with eq show ?thesis by simp
  qed
  then show ?thesis by (simp add: err_def x_def)
qed

lemma two_roundings_error:
  "\<bar>float_mul (round_double x) 100 - x * 100\<bar> \<le> \<bar>x * 100\<bar> / 2 ^ 51"
proof -
  define a where "a = round_double x"
  have a: "\<bar>a - x\<bar> \<le> \<bar>x\<bar> / 2 ^ 53" unfolding a_def by (rule round_double_error)
  have a': "\<bar>a\<bar> \<le> \<bar>x\<bar> * (1 + 1 / 2 ^ 53)"
    unfolding a_def using round_double_abs_bounds [of x] by blast
  have "\<bar>round_double (a * 100) - a * 100\<bar> \<le> \<bar>a * 100\<bar> / 2 ^ 53"
    by (rule round_double_error)
  also have "\<bar>a * 100\<bar> / 2 ^ 53 = \<bar>a\<bar> * (100 / 2 ^ 53)" by (simp add: abs_mult)
  also have "\<dots> \<le> \<bar>x\<bar> * (1 + 1 / 2 ^ 53) * (100 / 2 ^ 53)"
    using a' by (intro mult_right_mono) simp_all
  finally have b: "\<bar>round_double (a * 100) - a * 100\<bar>
      \<le> \<bar>x\<bar> * (1 + 1 / 2 ^ 53) * (100 / 2 ^ 53)" .
  have "\<bar>a * 100 - x * 100\<bar> = \<bar>(a - x) * 100\<bar>"
    by (simp only: left_diff_distrib)
  also have "\<dots> = \<bar>a - x\<bar> * 100"
    by (simp only: abs_mult abs_numeral)
  also have "\<dots> \<le> \<bar>x\<bar> / 2 ^ 53 * 100"
    using a by (intro mult_right_mono) simp_all
  finally have c: "\<bar>a * 100 - x * 100\<bar> \<le> \<bar>x\<bar> / 2 ^ 53 * 100" .
  have "\<bar>round_double (a * 100) - x * 100\<bar>
      \<le> \<bar>round_double (a * 100) - a * 100\<bar> + \<bar>a * 100 - x * 100\<bar>"
    by linarith
  also have "\<dots> \<le> \<bar>x\<bar> * (1 + 1 / 2 ^ 53) * (100 / 2 ^ 53) + \<bar>x\<bar> / 2 ^ 53 * 100"
    using b c by linarith
  also have "\<dots> = \<bar>x\<bar> * ((1 + 1 / 2 ^ 53) * (100 / 2 ^ 53) + 100 / 2 ^ 53)"
    by (simp add: algebra_simps)
  also have "\<dots> \<le> \<bar>x\<bar> * (100 / 2 ^ 51)"
    by (intro mult_left_mono) simp_all
  finally show ?thesis by (simp add: float_mul_def a_def abs_mult)
qed

lemma compare_field_value:
  assumes "idx < length ed" "idx < length recv_data" "ed ! idx \<noteq> 0"
  shows "compare_field ed recv_data idx =
     Inr \<lparr>r_id = int idx + 1,
          r_expected = ed ! idx,
          r_received = uint (recv_data ! idx),
          r_error = float_mul (round_double
            (of_int (uint (recv_data ! idx) - ed ! idx)
               / of_int (ed ! idx))) 100,
          r_status = (if \<bar>float_mul (round_double
            (of_int (uint (recv_data ! idx) - ed ! idx)
               / of_int (ed ! idx))) 100\<bar> \<le> 1 then ''PASS'' else ''FAIL'')\<rparr>"
  using assms by (simp add: compare_field_def getitem_def true_div_def Let_def)

section \<open>Properties of the comparison\<close>

text \<open>
  C6. Per-field comparison. For every received payload and every field index it
  has, when the expected value is not zero the comparison does not raise and makes
  a record with the 1-based field index, the expected and the received value, the
  percent error \<open>(received - expected) / expected * 100\<close> as Python's floats compute
  it (the quotient rounded, the product rounded), and the verdict PASS when the
  absolute value of that error is at most 1 and FAIL otherwise. The computed error
  is within a relative \<open>2^-51\<close> of the exact quotient, and for an expected value
  that is a byte (1..255) the verdict is the one of the exact quotient.
\<close>

theorem field_comparison:
  assumes "idx < length ed" and "idx < length recv_data"
    and "ed ! idx \<noteq> 0"
  shows "\<exists>error.
     compare_field ed recv_data idx =
       Inr \<lparr>r_id = int idx + 1,
            r_expected = ed ! idx,
            r_received = uint (recv_data ! idx),
            r_error = error,
            r_status = (if \<bar>error\<bar> \<le> 1 then ''PASS'' else ''FAIL'')\<rparr>
     \<and> error = round_double (round_double
           (of_int (uint (recv_data ! idx) - ed ! idx)
              / of_int (ed ! idx)) * 100)
     \<and> \<bar>error - of_int (uint (recv_data ! idx) - ed ! idx)
                    / of_int (ed ! idx) * 100\<bar>
         \<le> \<bar>of_int (uint (recv_data ! idx) - ed ! idx)
                    / of_int (ed ! idx) * 100\<bar> / 2 ^ 51
     \<and> (0 < ed ! idx \<and> ed ! idx \<le> 255 \<longrightarrow>
          (\<bar>error\<bar> \<le> 1) =
          (\<bar>of_int (uint (recv_data ! idx) - ed ! idx)
               / of_int (ed ! idx) * 100 :: rat\<bar> \<le> 1))"
proof -
  define d where "d = uint (recv_data ! idx) - ed ! idx"
  define e where "e = ed ! idx"
  define error where "error = float_mul (round_double (of_int d / of_int e)) 100"
  have 1: "compare_field ed recv_data idx =
       Inr \<lparr>r_id = int idx + 1, r_expected = e, r_received = uint (recv_data ! idx),
            r_error = error,
            r_status = (if \<bar>error\<bar> \<le> 1 then ''PASS'' else ''FAIL'')\<rparr>"
    unfolding error_def d_def e_def by (rule compare_field_value [OF assms])
  have 2: "error = round_double (round_double (of_int d / of_int e) * 100)"
    by (simp add: error_def float_mul_def)
  have 3: "\<bar>error - of_int d / of_int e * 100\<bar> \<le> \<bar>of_int d / of_int e * 100\<bar> / 2 ^ 51"
    unfolding error_def by (rule two_roundings_error)
  have 4: "(\<bar>error\<bar> \<le> 1) = (\<bar>of_int d / of_int e * 100 :: rat\<bar> \<le> 1)"
    if "0 < e" "e \<le> 255"
  proof -
    have "(\<bar>error\<bar> \<le> 1) = (100 * \<bar>d\<bar> \<le> e)"
      unfolding error_def by (rule verdict_exact [OF that])
    also have "\<dots> = ((of_int (100 * \<bar>d\<bar>) :: rat) \<le> of_int e)"
      by (simp only: of_int_le_iff)
    also have "\<dots> = (\<bar>of_int d / of_int e * 100 :: rat\<bar> \<le> 1)"
      using that(1) by (simp add: abs_mult abs_divide field_simps)
    finally show ?thesis .
  qed
  show ?thesis
    using 1 2 3 4 unfolding d_def e_def by blast
qed

theorem field_comparison_witness:
  "(10 :: nat) < length expected_data
   \<and> 10 < length [10, 20, 30, 40, 50, 60, 70, 80, 90, 100, 115 :: byte]
   \<and> expected_data ! 10 \<noteq> 0
   \<and> compare_field expected_data [10, 20, 30, 40, 50, 60, 70, 80, 90, 100, 115] 10
       = Inr \<lparr>r_id = 11, r_expected = 110, r_received = 115,
              r_error = 5117726849284655 / 1125899906842624, r_status = ''FAIL''\<rparr>
   \<and> compare_field expected_data [10, 20, 30, 40, 50, 60, 70, 80, 90, 100, 111] 10
       = Inr \<lparr>r_id = 11, r_expected = 110, r_received = 111,
              r_error = 8188362958855447 / 9007199254740992, r_status = ''PASS''\<rparr>"
proof -
  let ?r1 = "[10, 20, 30, 40, 50, 60, 70, 80, 90, 100, 115 :: byte]"
  let ?r2 = "[10, 20, 30, 40, 50, 60, 70, 80, 90, 100, 111 :: byte]"
  have l: "(10 :: nat) < length expected_data" by (simp add: expected_data_def)
  have l1: "10 < length ?r1" by simp
  have l2: "10 < length ?r2" by simp
  have e: "expected_data ! 10 = 110" by (simp add: expected_data_def)
  then have nz: "expected_data ! 10 \<noteq> 0" by simp
  have v1: "round_double (round_double (1 / 22) * 100) = 5117726849284655 / 1125899906842624"
    by code_simp
  have v2: "round_double (round_double (1 / 110) * 100) = 8188362958855447 / 9007199254740992"
    by code_simp
  have a: "compare_field expected_data ?r1 10
       = Inr \<lparr>r_id = 11, r_expected = 110, r_received = 115,
              r_error = 5117726849284655 / 1125899906842624, r_status = ''FAIL''\<rparr>"
    using field_comparison [OF l l1 nz, unfolded e, simplified] unfolding v1 by simp
  have b: "compare_field expected_data ?r2 10
       = Inr \<lparr>r_id = 11, r_expected = 110, r_received = 111,
              r_error = 8188362958855447 / 9007199254740992, r_status = ''PASS''\<rparr>"
    using field_comparison [OF l l2 nz, unfolded e, simplified] unfolding v2 by simp
  show ?thesis using l l1 nz a b by blast
qed

section \<open>The processing loop\<close>

lemma field_loop_value:
  assumes "\<forall>i\<in>set idxs. i < length ed \<and> i < length rd \<and> ed ! i \<noteq> 0"
  shows "field_loop ed rd idxs acc
     = Inr (acc @ map (\<lambda>i. projr (compare_field ed rd i)) idxs)"
  using assms
proof (induction idxs arbitrary: acc)
  case Nil
  then show ?case by simp
next
  case (Cons i idxs)
  then have "i < length ed" "i < length rd" "ed ! i \<noteq> 0" by simp_all
  from compare_field_value [OF this] obtain r where r: "compare_field ed rd i = Inr r"
    by blast
  from Cons have "\<forall>i\<in>set idxs. i < length ed \<and> i < length rd \<and> ed ! i \<noteq> 0" by simp
  from Cons.IH [OF this, of "acc @ [r]"] show ?case by (simp add: r)
qed

lemma field_loop_length:
  "field_loop ed rd idxs acc = Inr res \<Longrightarrow> length res = length acc + length idxs"
proof (induction idxs arbitrary: acc)
  case Nil
  then show ?case by simp
next
  case (Cons i idxs)
  then show ?case by (fastforce split: sum.splits)
qed

lemma nth_concat_uniform:
  assumes "\<forall>xs\<in>set xss. length xs = n" and "j < n * length xss"
  shows "concat xss ! j = xss ! (j div n) ! (j mod n)"
  using assms
proof (induction xss arbitrary: j)
  case Nil
  then show ?case by simp
next
  case (Cons xs xss)
  then have len: "length xs = n" by simp
  have n: "0 < n" using Cons.prems(2) by (cases n) simp_all
  show ?case
  proof (cases "j < n")
    case True
    then show ?thesis by (simp add: nth_append len)
  next
    case False
    then have ge: "n \<le> j" by simp
    then have "j - n < n * length xss" using Cons.prems(2) by simp
    moreover have "\<forall>xs\<in>set xss. length xs = n" using Cons.prems(1) by simp
    ultimately have IH: "concat xss ! (j - n) = xss ! ((j - n) div n) ! ((j - n) mod n)"
      by (rule Cons.IH [rotated])
    have d: "j div n = Suc ((j - n) div n)" using ge n by (simp add: le_div_geq)
    have m: "j mod n = (j - n) mod n" using ge by (simp add: le_mod_geq)
    show ?thesis using False IH by (simp add: nth_append len d m)
  qed
qed

lemma length_concat_uniform:
  "\<forall>xs\<in>set xss. length xs = n \<Longrightarrow> length (concat xss) = n * length xss"
  by (induction xss) simp_all

lemma consume_loop_all_items:
  assumes "11 \<le> length ed" and "0 \<notin> set (take 11 ed)"
    and "\<forall>p\<in>set (items gets). length p = 11"
    and "received_packets s + int (length (items gets)) = N"
  shows "\<exists>s'. consume_loop ed N s gets = Finished s'
     \<and> received_packets s' = N
     \<and> results_all s' = results_all s
         @ concat (map (\<lambda>p. map (\<lambda>i. projr (compare_field ed p i)) [0..<11]) (items gets))"
  using assms(3,4)
proof (induction gets arbitrary: s)
  case Nil
  then show ?case by simp
next
  case (Cons g gets)
  show ?case
  proof (cases g)
    case Timeout
    show ?thesis
    proof (cases "received_packets s < N")
      case True
      let ?s = "s\<lparr>printed := printed s @ [''Timeout waiting for packet'']\<rparr>"
      have "\<forall>p\<in>set (items gets). length p = 11" using Cons.prems(1) Timeout by simp
      moreover have "received_packets ?s + int (length (items gets)) = N"
        using Cons.prems(2) Timeout by simp
      ultimately obtain s' where "consume_loop ed N ?s gets = Finished s'"
        "received_packets s' = N"
        "results_all s' = results_all ?s
          @ concat (map (\<lambda>p. map (\<lambda>i. projr (compare_field ed p i)) [0..<11]) (items gets))"
        using Cons.IH [of ?s] by blast
      then show ?thesis using True Timeout by simp
    next
      case False
      moreover have "received_packets s + int (length (items gets)) = N"
        using Cons.prems(2) Timeout by simp
      ultimately have "length (items gets) = 0" by linarith
      then have "items gets = []" by simp
      then show ?thesis using False Timeout Cons.prems(2) by simp
    qed
  next
    case (Item p)
    then have lt: "received_packets s < N" using Cons.prems(2) by simp
    have lp: "length p = 11" using Cons.prems(1) Item by simp
    have ok: "\<forall>i\<in>set [0..<11]. i < length ed \<and> i < length p \<and> ed ! i \<noteq> 0"
    proof
      fix i assume "i \<in> set [0..<11]"
      then have i: "i < 11" by simp
      then have "ed ! i \<in> set (take 11 ed)"
        using assms(1) by (metis in_set_conv_nth length_take min.absorb2 nth_take)
      with assms(2) have "ed ! i \<noteq> 0" by metis
      with i assms(1) lp show "i < length ed \<and> i < length p \<and> ed ! i \<noteq> 0" by simp
    qed
    define res where "res = results_all s @ map (\<lambda>i. projr (compare_field ed p i)) [0..<11]"
    have fl: "field_loop ed p [0..<11] (results_all s) = Inr res"
      unfolding res_def by (rule field_loop_value [OF ok])
    let ?s = "s\<lparr>received_packets := received_packets s + 1, results_all := res\<rparr>"
    have "\<forall>p\<in>set (items gets). length p = 11" using Cons.prems(1) Item by simp
    moreover have "received_packets ?s + int (length (items gets)) = N"
      using Cons.prems(2) Item by simp
    ultimately obtain s' where "consume_loop ed N ?s gets = Finished s'"
        "received_packets s' = N"
        "results_all s' = results_all ?s
          @ concat (map (\<lambda>p. map (\<lambda>i. projr (compare_field ed p i)) [0..<11]) (items gets))"
      using Cons.IH [of ?s] by blast
    then show ?thesis using lt Item fl by (simp add: res_def)
  qed
qed

lemma consume_loop_finished:
  assumes "received_packets s \<le> N" and "consume_loop ed N s gets = Finished s'"
  shows "received_packets s' = N
     \<and> N - received_packets s \<le> int (length (items gets))
     \<and> int (length (results_all s'))
         = int (length (results_all s)) + 11 * (N - received_packets s)"
  using assms
proof (induction gets arbitrary: s)
  case Nil
  then show ?case by (auto split: if_splits)
next
  case (Cons g gets)
  show ?case
  proof (cases "received_packets s < N")
    case False
    with Cons.prems show ?thesis by simp
  next
    case True
    show ?thesis
    proof (cases g)
      case Timeout
      let ?s = "s\<lparr>printed := printed s @ [''Timeout waiting for packet'']\<rparr>"
      have "consume_loop ed N ?s gets = Finished s'"
        using Cons.prems(2) True Timeout by simp
      moreover have "received_packets ?s \<le> N" using Cons.prems(1) by simp
      ultimately show ?thesis using Cons.IH [of ?s] Timeout by simp
    next
      case (Item p)
      from Cons.prems(2) True Item obtain res where
        fl: "field_loop ed p [0..<11] (results_all s) = Inr res"
        by (auto split: sum.splits)
      let ?s = "s\<lparr>received_packets := received_packets s + 1, results_all := res\<rparr>"
      have "consume_loop ed N ?s gets = Finished s'"
        using Cons.prems(2) True Item fl by simp
      moreover have "received_packets ?s \<le> N" using True by simp
      ultimately have "received_packets s' = N
         \<and> N - received_packets ?s \<le> int (length (items gets))
         \<and> int (length (results_all s'))
             = int (length (results_all ?s)) + 11 * (N - received_packets ?s)"
        by (rule Cons.IH [rotated])
      moreover have "length res = length (results_all s) + 11"
        using field_loop_length [OF fl] by simp
      ultimately show ?thesis using Item by simp
    qed
  qed
qed

lemma consume_loop_timeouts:
  "received_packets s < N \<Longrightarrow>
     consume_loop ed N s (replicate k Timeout)
       = Waiting (s\<lparr>printed := printed s @ replicate k ''Timeout waiting for packet''\<rparr>)"
proof (induction k arbitrary: s)
  case 0
  then show ?case by simp
next
  case (Suc k)
  let ?s = "s\<lparr>printed := printed s @ [''Timeout waiting for packet'']\<rparr>"
  have "received_packets ?s < N" using Suc.prems by simp
  from Suc.IH [OF this] show ?case using Suc.prems
    by (simp add: replicate_app_Cons_same)
qed

lemma send_loop_value:
  "create_packet data = Inr packet \<Longrightarrow>
     send_loop data n written = Inr (written @ replicate n packet)"
  by (induction n arbitrary: written) (simp_all add: replicate_app_Cons_same)

lemma create_packet_expected_data:
  "create_packet expected_data
     = Inr [36, 70, 83, 10, 20, 30, 40, 50, 60, 70, 80, 90, 100, 110, 90, 110]"
  by code_simp

lemma main_consume_loop:
  "main gets = consume_loop expected_data packets_to_send
     \<lparr>received_packets = 0, results_all = [],
      printed = [''Serial receiver thread started...'']\<rparr> gets"
  by (simp add: main_def send_loop_value [OF create_packet_expected_data])

section \<open>Properties of the verification session\<close>

text \<open>
  C7. Record count and order. When the expected values of the 11 fields are not
  zero and the processing loop, still \<open>N\<close> payloads short, receives exactly \<open>N\<close>
  payloads of 11 bytes (with any number of timeouts between them), it ends and
  has appended exactly \<open>11 * N\<close> records: record number \<open>j\<close> (from 0) is the
  comparison of field \<open>j mod 11\<close> of payload number \<open>j div 11\<close> in arrival order, and
  carries the 1-based field index \<open>j mod 11 + 1\<close>. For the 5 packets of \<open>main\<close>
  these are 55 records.
\<close>

theorem record_count_and_order:
  assumes "11 \<le> length ed" and "0 \<notin> set (take 11 ed)"
    and "\<forall>p\<in>set (items gets). length p = 11"
    and "received_packets s + int (length (items gets)) = N"
  shows "\<exists>s' new. consume_loop ed N s gets = Finished s'
     \<and> received_packets s' = N
     \<and> results_all s' = results_all s @ new
     \<and> length new = 11 * length (items gets)
     \<and> (\<forall>j < 11 * length (items gets).
          compare_field ed (items gets ! (j div 11)) (j mod 11) = Inr (new ! j)
          \<and> r_id (new ! j) = int (j mod 11) + 1
          \<and> r_expected (new ! j) = ed ! (j mod 11)
          \<and> r_received (new ! j) = uint (items gets ! (j div 11) ! (j mod 11)))"
proof -
  define f where "f = (\<lambda>p. map (\<lambda>i. projr (compare_field ed p i)) [0..<11])"
  define new where "new = concat (map f (items gets))"
  from consume_loop_all_items [OF assms] obtain s' where
    fin: "consume_loop ed N s gets = Finished s'" and rp: "received_packets s' = N"
    and res: "results_all s' = results_all s @ new"
    unfolding new_def f_def by blast
  have uni: "\<forall>xs\<in>set (map f (items gets)). length xs = 11" by (simp add: f_def)
  have len: "length new = 11 * length (items gets)"
    unfolding new_def using length_concat_uniform [OF uni] by simp
  have recs: "compare_field ed (items gets ! (j div 11)) (j mod 11) = Inr (new ! j)
          \<and> r_id (new ! j) = int (j mod 11) + 1
          \<and> r_expected (new ! j) = ed ! (j mod 11)
          \<and> r_received (new ! j) = uint (items gets ! (j div 11) ! (j mod 11))"
    if j: "j < 11 * length (items gets)" for j
  proof -
    define p where "p = items gets ! (j div 11)"
    define i where "i = j mod 11"
    have d: "j div 11 < length (items gets)" using j by (simp add: less_mult_imp_div_less mult.commute)
    have i: "i < 11" by (simp add: i_def)
    have "p \<in> set (items gets)" unfolding p_def using d by simp
    with assms(3) have lp: "length p = 11" by blast
    have "ed ! i \<in> set (take 11 ed)"
      using assms(1) i by (metis in_set_conv_nth length_take min.absorb2 nth_take)
    with assms(2) have nz: "ed ! i \<noteq> 0" by metis
    have "j < 11 * length (map f (items gets))" using j by simp
    from nth_concat_uniform [OF uni this]
    have "new ! j = f p ! i" using d by (simp add: new_def p_def i_def)
    also have "\<dots> = projr (compare_field ed p i)" using i by (simp add: f_def)
    finally have nj: "new ! j = projr (compare_field ed p i)" .
    have "i < length ed" "i < length p" using i assms(1) lp by simp_all
    from compare_field_value [OF this nz] show ?thesis
      unfolding nj p_def [symmetric] i_def [symmetric] by simp
  qed
  from fin rp res len recs show ?thesis by blast
qed

theorem record_count_and_order_witness:
  "11 \<le> length expected_data
   \<and> 0 \<notin> set (take 11 expected_data)
   \<and> list_all (\<lambda>p. length p = 11)
       (items [Item [10, 20, 30, 40, 50, 60, 70, 80, 90, 100, 110], Timeout,
               Item [11, 20, 30, 40, 50, 60, 70, 80, 90, 100, 110],
               Item [10, 20, 30, 40, 50, 60, 70, 80, 90, 100, 115], Timeout, Timeout,
               Item [10, 20, 30, 40, 50, 60, 70, 80, 90, 100, 110],
               Item [10, 20, 30, 40, 50, 60, 70, 80, 90, 100, 111]])
   \<and> (\<exists>s'. main [Item [10, 20, 30, 40, 50, 60, 70, 80, 90, 100, 110], Timeout,
                   Item [11, 20, 30, 40, 50, 60, 70, 80, 90, 100, 110],
                   Item [10, 20, 30, 40, 50, 60, 70, 80, 90, 100, 115], Timeout, Timeout,
                   Item [10, 20, 30, 40, 50, 60, 70, 80, 90, 100, 110],
                   Item [10, 20, 30, 40, 50, 60, 70, 80, 90, 100, 111]] = Finished s'
        \<and> received_packets s' = 5
        \<and> length (results_all s') = 55
        \<and> r_id (results_all s' ! 0) = 1
        \<and> r_received (results_all s' ! 11) = 11
        \<and> r_id (results_all s' ! 32) = 11
        \<and> r_received (results_all s' ! 32) = 115
        \<and> r_id (results_all s' ! 54) = 11
        \<and> r_received (results_all s' ! 54) = 111)"
proof -
  let ?gets = "[Item [10, 20, 30, 40, 50, 60, 70, 80, 90, 100, 110], Timeout,
                   Item [11, 20, 30, 40, 50, 60, 70, 80, 90, 100, 110],
                   Item [10, 20, 30, 40, 50, 60, 70, 80, 90, 100, 115], Timeout, Timeout,
                   Item [10, 20, 30, 40, 50, 60, 70, 80, 90, 100, 110],
                   Item [10, 20, 30, 40, 50, 60, 70, 80, 90, 100, 111]]"
  let ?s = "\<lparr>received_packets = 0, results_all = [],
      printed = [''Serial receiver thread started...'']\<rparr>"
  have it: "items ?gets = [[10, 20, 30, 40, 50, 60, 70, 80, 90, 100, 110],
      [11, 20, 30, 40, 50, 60, 70, 80, 90, 100, 110],
      [10, 20, 30, 40, 50, 60, 70, 80, 90, 100, 115],
      [10, 20, 30, 40, 50, 60, 70, 80, 90, 100, 110],
      [10, 20, 30, 40, 50, 60, 70, 80, 90, 100, 111]]" by simp
  have 1: "11 \<le> length expected_data" by (simp add: expected_data_def)
  have 2: "0 \<notin> set (take 11 expected_data)" by (simp add: expected_data_def)
  have 3: "\<forall>p\<in>set (items ?gets). length p = 11" unfolding it by simp
  have 4: "received_packets ?s + int (length (items ?gets)) = packets_to_send"
    unfolding it by (simp add: packets_to_send_def)
  from record_count_and_order [OF 1 2 3 4] obtain s' new where
    fin: "consume_loop expected_data packets_to_send ?s ?gets = Finished s'"
    and rp: "received_packets s' = packets_to_send"
    and res: "results_all s' = new"
    and len: "length new = 11 * length (items ?gets)"
    and recs: "\<forall>j < 11 * length (items ?gets).
          r_id (new ! j) = int (j mod 11) + 1
          \<and> r_received (new ! j) = uint (items ?gets ! (j div 11) ! (j mod 11))"
    by auto
  have l55: "length new = 55" using len unfolding it by simp
  have n: "11 * length (items ?gets) = 55" unfolding it by simp
  have r0: "r_id (new ! 0) = 1" using recs [unfolded n it, rule_format, of 0] by simp
  have r11: "r_received (new ! 11) = 11"
    using recs [unfolded n it, rule_format, of 11] by simp
  have r32: "r_id (new ! 32) = 11 \<and> r_received (new ! 32) = 115"
    using recs [unfolded n it, rule_format, of 32] by simp
  have r54: "r_id (new ! 54) = 11 \<and> r_received (new ! 54) = 111"
    using recs [unfolded n it, rule_format, of 54] by simp
  have m: "main ?gets = Finished s'" using fin by (simp add: main_consume_loop)
  have "\<exists>s'. main ?gets = Finished s'
        \<and> received_packets s' = 5
        \<and> length (results_all s') = 55
        \<and> r_id (results_all s' ! 0) = 1
        \<and> r_received (results_all s' ! 11) = 11
        \<and> r_id (results_all s' ! 32) = 11
        \<and> r_received (results_all s' ! 32) = 115
        \<and> r_id (results_all s' ! 54) = 11
        \<and> r_received (results_all s' ! 54) = 111"
    using m rp res l55 r0 r11 r32 r54 by (auto simp add: packets_to_send_def)
  moreover have "list_all (\<lambda>p. length p = 11) (items ?gets)" unfolding it by simp
  ultimately show ?thesis using 1 2 by blast
qed

text \<open>
  C9. Receive timeout. While payloads are still missing, a wait that times out
  prints the timeout message and nothing else changes: the count of received
  payloads and the records stay as they are, no exception ends the loop, and the
  loop waits again. A link that never delivers keeps the loop waiting, one message
  per timeout. The loop ends only with the count at \<open>packets_to_send\<close>, after that
  many payloads have arrived and 11 records have been made for each.
\<close>

theorem timeout_handling:
  "(received_packets s < N \<longrightarrow>
      consume_loop ed N s (Timeout # gets)
        = consume_loop ed N (s\<lparr>printed := printed s @ [''Timeout waiting for packet'']\<rparr>) gets
      \<and> consume_loop ed N s (replicate k Timeout)
        = Waiting (s\<lparr>printed := printed s @ replicate k ''Timeout waiting for packet''\<rparr>))
   \<and> (received_packets s \<le> N \<longrightarrow>
        (\<forall>s'. consume_loop ed N s gets = Finished s' \<longrightarrow>
           received_packets s' = N
           \<and> N - received_packets s \<le> int (length (items gets))
           \<and> int (length (results_all s'))
               = int (length (results_all s)) + 11 * (N - received_packets s)))"
proof (intro conjI impI allI)
  assume "received_packets s < N"
  then show "consume_loop ed N s (Timeout # gets)
      = consume_loop ed N (s\<lparr>printed := printed s @ [''Timeout waiting for packet'']\<rparr>) gets"
    by simp
next
  assume "received_packets s < N"
  then show "consume_loop ed N s (replicate k Timeout)
      = Waiting (s\<lparr>printed := printed s @ replicate k ''Timeout waiting for packet''\<rparr>)"
    by (rule consume_loop_timeouts)
next
  fix s'
  assume a: "received_packets s \<le> N" "consume_loop ed N s gets = Finished s'"
  from consume_loop_finished [OF a]
  show "received_packets s' = N"
    and "N - received_packets s \<le> int (length (items gets))"
    and "int (length (results_all s'))
        = int (length (results_all s)) + 11 * (N - received_packets s)"
    by simp_all
qed

theorem timeout_handling_witness:
  "consume_loop expected_data 2
     \<lparr>received_packets = 0, results_all = [], printed = []\<rparr>
     [Timeout, Timeout, Timeout]
     = Waiting \<lparr>received_packets = 0, results_all = [],
         printed = [''Timeout waiting for packet'', ''Timeout waiting for packet'',
                    ''Timeout waiting for packet'']\<rparr>
   \<and> (\<exists>s'. consume_loop expected_data 2
          \<lparr>received_packets = 0, results_all = [], printed = []\<rparr>
          [Timeout, Item [10, 20, 30, 40, 50, 60, 70, 80, 90, 100, 110], Timeout,
           Item [10, 20, 30, 40, 50, 60, 70, 80, 90, 100, 115], Timeout]
          = Finished s'
        \<and> received_packets s' = 2
        \<and> length (results_all s') = 22)"
proof -
  let ?s = "\<lparr>received_packets = 0, results_all = [], printed = []\<rparr>"
  let ?gets = "[Timeout, Item [10, 20, 30, 40, 50, 60, 70, 80, 90, 100, 110], Timeout,
           Item [10, 20, 30, 40, 50, 60, 70, 80, 90, 100, 115], Timeout]"
  have lt: "received_packets ?s < 2" by simp
  have le: "received_packets ?s \<le> 2" by simp
  have r: "replicate 3 Timeout = [Timeout, Timeout, Timeout]"
    by (simp add: numeral_3_eq_3)
  have r': "replicate 3 ''Timeout waiting for packet''
      = [''Timeout waiting for packet'', ''Timeout waiting for packet'',
         ''Timeout waiting for packet'']"
    by (simp add: numeral_3_eq_3)
  have w: "consume_loop expected_data 2 ?s [Timeout, Timeout, Timeout]
     = Waiting \<lparr>received_packets = 0, results_all = [],
         printed = [''Timeout waiting for packet'', ''Timeout waiting for packet'',
                    ''Timeout waiting for packet'']\<rparr>"
    using timeout_handling [of ?s 2 expected_data "[]" 3] lt unfolding r r' by simp
  have "11 \<le> length expected_data" "0 \<notin> set (take 11 expected_data)"
    by (simp_all add: expected_data_def)
  moreover have "\<forall>p\<in>set (items ?gets). length p = 11" by simp
  moreover have "received_packets ?s + int (length (items ?gets)) = 2" by simp
  ultimately obtain s' where fin: "consume_loop expected_data 2 ?s ?gets = Finished s'"
    using consume_loop_all_items [of expected_data ?gets ?s 2] by blast
  from timeout_handling [of ?s 2 expected_data ?gets] le fin
  have "received_packets s' = 2"
    and "int (length (results_all s')) = int (length (results_all ?s)) + 11 * (2 - received_packets ?s)"
    by blast+
  then have "received_packets s' = 2 \<and> length (results_all s') = 22" by simp
  with fin w show ?thesis by blast
qed

end
